theory Spec2Isabelle
  imports Complex_Main "HOL-Library.Log_Nat" "HOL-Library.Multiset"
begin

section \<open>The synthetic order-data generator (generate\_data.py)\<close>

text \<open>
  The script reads three record sets (customers, products, orders), generates order line
  items and a recomputed total per order, rewrites the orders, and generates at most 200
  reviews. The model below follows the script top to bottom. Exceptions are values of
  type \<open>error\<close>; the random module is a stream of raw draws that the library functions
  consume; floats are IEEE doubles given by their exact rational value; the files are
  fields of a record that the run returns updated.
\<close>

subsection \<open>Exceptions\<close>

datatype error = FileNotFoundError | ValueError | OverflowError | KeyError

subsection \<open>Decimal digits\<close>

definition digit_char :: "nat \<Rightarrow> char" where
  "digit_char d = ''0123456789'' ! d"

definition digit_val :: "char \<Rightarrow> nat option" where
  "digit_val c =
     (let n = (of_char c :: nat) in if 48 \<le> n \<and> n \<le> 57 then Some (n - 48) else None)"

text \<open>\<open>str(n)\<close> for an integer \<open>n \<ge> 0\<close>.\<close>

function show_int :: "int \<Rightarrow> string" where
  "show_int n =
     (if n < 10 then [digit_char (nat n)]
      else show_int (n div 10) @ [digit_char (nat (n mod 10))])"
  by pat_completeness auto
termination
  by (relation "measure nat") auto

declare show_int.simps [simp del]

text \<open>The value of a digit sequence, most significant digit first.\<close>

definition digits_value :: "nat list \<Rightarrow> int" where
  "digits_value ds = foldl (\<lambda>acc d. 10 * acc + int d) 0 ds"

subsection \<open>Floats: IEEE 754 binary64 by exact value\<close>

text \<open>
  A Python float is a double. A finite double is modelled by the rational number it
  denotes; negative zero, the infinities (\<open>Inf True\<close> is minus infinity) and NaN are
  separate values. Every operation computes the exact result and rounds it to the nearest
  double, ties to even, as the hardware does.
\<close>

datatype double = Fin rat | NegZero | Inf bool | NaN

definition pow2 :: "int \<Rightarrow> rat" where
  "pow2 e = (if 0 \<le> e then 2 ^ nat e else 1 / 2 ^ nat (- e))"

definition round_half_even :: "rat \<Rightarrow> int" where
  "round_half_even y =
     (let f = \<lfloor>y\<rfloor>; r = y - of_int f
      in if r < 1 / 2 then f else if 1 / 2 < r then f + 1
         else if even f then f else f + 1)"

text \<open>The binary exponent of a positive rational: the \<open>e\<close> with \<open>2^e \<le> x < 2^(e+1)\<close>.\<close>

definition expo :: "rat \<Rightarrow> int" where
  "expo x =
     (let (a, b) = quotient_of x; k = bitlen a - bitlen b
      in if pow2 k \<le> x then k else k - 1)"

text \<open>
  Rounding a positive rational to 53 significant bits; below \<open>2^-1022\<close> the spacing
  stays \<open>2^-1074\<close> (subnormal numbers). A rounded magnitude of \<open>2^1024\<close> or more
  (binary exponent above 1023) overflows to infinity.
\<close>

definition round_mag :: "rat \<Rightarrow> rat" where
  "round_mag x =
     (let e = max (expo x - 52) (- 1074)
      in of_int (round_half_even (x / pow2 e)) * pow2 e)"

definition to_double :: "rat \<Rightarrow> double" where
  "to_double x =
     (if x = 0 then Fin 0
      else let r = round_mag \<bar>x\<bar>
           in if r = 0 then (if x < 0 then NegZero else Fin 0)
              else if 1024 \<le> expo r then Inf (x < 0)
              else Fin (if x < 0 then - r else r))"

definition is_negative :: "double \<Rightarrow> bool" where
  "is_negative d =
     (case d of Fin x \<Rightarrow> x < 0 | NegZero \<Rightarrow> True | Inf s \<Rightarrow> s | NaN \<Rightarrow> False)"

definition signed_zero :: "bool \<Rightarrow> double" where
  "signed_zero neg = (if neg then NegZero else Fin 0)"

text \<open>\<open>x + y\<close> on floats.\<close>

fun dadd :: "double \<Rightarrow> double \<Rightarrow> double" where
  "dadd NaN _ = NaN"
| "dadd _ NaN = NaN"
| "dadd (Inf s) (Inf t) = (if s = t then Inf s else NaN)"
| "dadd (Inf s) _ = Inf s"
| "dadd _ (Inf t) = Inf t"
| "dadd NegZero NegZero = NegZero"
| "dadd NegZero (Fin y) = Fin y"
| "dadd (Fin x) NegZero = Fin x"
| "dadd (Fin x) (Fin y) = to_double (x + y)"

text \<open>\<open>x * y\<close> on floats.\<close>

definition is_zero :: "double \<Rightarrow> bool" where
  "is_zero d = (d = Fin 0 \<or> d = NegZero)"

fun dmul :: "double \<Rightarrow> double \<Rightarrow> double" where
  "dmul NaN _ = NaN"
| "dmul _ NaN = NaN"
| "dmul (Inf s) y = (if is_zero y then NaN else Inf (s \<noteq> is_negative y))"
| "dmul x (Inf t) = (if is_zero x then NaN else Inf (is_negative x \<noteq> t))"
| "dmul x y =
     (if is_zero x \<or> is_zero y then signed_zero (is_negative x \<noteq> is_negative y)
      else case (x, y) of
             (Fin a, Fin b) \<Rightarrow>
               (case to_double (a * b) of
                  Fin r \<Rightarrow> if r = 0 then signed_zero (a * b < 0) else Fin r
                | d \<Rightarrow> d)
           | _ \<Rightarrow> NaN)"

text \<open>An int operand of a float operation is converted to the nearest double first.\<close>

definition double_of_int :: "int \<Rightarrow> error + double" where
  "double_of_int n =
     (case to_double (of_int n) of Inf _ \<Rightarrow> Inl OverflowError | d \<Rightarrow> Inr d)"

text \<open>\<open>int(x)\<close>: truncation towards zero.\<close>

definition int_of_double :: "double \<Rightarrow> error + int" where
  "int_of_double d =
     (case d of
        Fin x \<Rightarrow> Inr (if 0 \<le> x then \<lfloor>x\<rfloor> else - \<lfloor>- x\<rfloor>)
      | NegZero \<Rightarrow> Inr 0
      | Inf _ \<Rightarrow> Inl OverflowError
      | NaN \<Rightarrow> Inl ValueError)"

text \<open>
  \<open>f"{x:.2f}"\<close>: the exact value rounded to two decimals, ties to even; the sign is
  kept when the digits round to zero.
\<close>

definition two_digits :: "nat \<Rightarrow> string" where
  "two_digits n = [digit_char (n div 10), digit_char (n mod 10)]"

definition cents_str :: "int \<Rightarrow> string" where
  "cents_str c = show_int (c div 100) @ ''.'' @ two_digits (nat (c mod 100))"

definition format_2f :: "double \<Rightarrow> string" where
  "format_2f d =
     (case d of
        Fin x \<Rightarrow> (if x < 0 then ''-'' else '''') @ cents_str (round_half_even (\<bar>x\<bar> * 100))
      | NegZero \<Rightarrow> ''-0.00''
      | Inf s \<Rightarrow> (if s then ''-inf'' else ''inf'')
      | NaN \<Rightarrow> ''nan'')"


subsection \<open>\<open>float(s)\<close>: reading a float from text\<close>

text \<open>
  The accepted texts: optional surrounding whitespace, an optional sign, then
  \<open>inf\<close>, \<open>infinity\<close> or \<open>nan\<close> in any letter case, or a decimal number
  (digits with single underscores between them, an optional point, an optional exponent).
  Anything else raises ValueError. Characters are ASCII.
\<close>

definition is_space :: "char \<Rightarrow> bool" where
  "is_space c =
     (let n = (of_char c :: nat) in (9 \<le> n \<and> n \<le> 13) \<or> (28 \<le> n \<and> n \<le> 32))"

definition strip :: "string \<Rightarrow> string" where
  "strip s = rev (dropWhile is_space (rev (dropWhile is_space s)))"

definition lower_kw :: "char \<Rightarrow> char" where
  \<comment> \<open>lower case, for the letters of the keywords\<close>
  "lower_kw c =
     (if c = CHR ''I'' then CHR ''i'' else if c = CHR ''N'' then CHR ''n''
      else if c = CHR ''F'' then CHR ''f'' else if c = CHR ''T'' then CHR ''t''
      else if c = CHR ''Y'' then CHR ''y'' else if c = CHR ''A'' then CHR ''a'' else c)"

text \<open>After a first digit: further digits, each optionally preceded by one underscore.\<close>

fun digitpart_rest :: "string \<Rightarrow> nat list \<times> string" where
  "digitpart_rest [] = ([], [])"
| "digitpart_rest [c] = (case digit_val c of Some d \<Rightarrow> ([d], []) | None \<Rightarrow> ([], [c]))"
| "digitpart_rest (c # c2 # cs) =
     (case digit_val c of
        Some d \<Rightarrow> (let (ds, r) = digitpart_rest (c2 # cs) in (d # ds, r))
      | None \<Rightarrow>
          (if c = CHR ''_'' then
             (case digit_val c2 of
                Some d \<Rightarrow> (let (ds, r) = digitpart_rest cs in (d # ds, r))
              | None \<Rightarrow> ([], c # c2 # cs))
           else ([], c # c2 # cs)))"

definition digitpart :: "string \<Rightarrow> (nat list \<times> string) option" where
  "digitpart s =
     (case s of
        [] \<Rightarrow> None
      | c # cs \<Rightarrow>
          (case digit_val c of
             None \<Rightarrow> None
           | Some d \<Rightarrow> (let (ds, r) = digitpart_rest cs in Some (d # ds, r))))"

text \<open>\<open>[digitpart] "." digitpart | digitpart ["."]\<close>: integer digits, fraction digits, rest.\<close>

definition number :: "string \<Rightarrow> (nat list \<times> nat list \<times> string) option" where
  "number s =
     (case digitpart s of
        Some (ip, r) \<Rightarrow>
          (case r of
             [] \<Rightarrow> Some (ip, [], [])
           | c # r' \<Rightarrow>
               (if c = CHR ''.'' then
                  (case digitpart r' of
                     Some (fp, r'') \<Rightarrow> Some (ip, fp, r'')
                   | None \<Rightarrow> Some (ip, [], r'))
                else Some (ip, [], r)))
      | None \<Rightarrow>
          (case s of
             [] \<Rightarrow> None
           | c # r' \<Rightarrow>
               (if c = CHR ''.'' then
                  (case digitpart r' of
                     Some (fp, r'') \<Rightarrow> Some ([], fp, r'')
                   | None \<Rightarrow> None)
                else None)))"

definition split_sign :: "string \<Rightarrow> bool \<times> string" where
  "split_sign s =
     (case s of
        [] \<Rightarrow> (False, [])
      | c # r \<Rightarrow>
          (if c = CHR ''-'' then (True, r) else if c = CHR ''+'' then (False, r)
           else (False, s)))"

text \<open>An optional exponent: its value (0 when absent) and the rest.\<close>

definition exponent :: "string \<Rightarrow> (int \<times> string) option" where
  "exponent s =
     (case s of
        [] \<Rightarrow> Some (0, [])
      | c # r \<Rightarrow>
          (if c = CHR ''e'' \<or> c = CHR ''E'' then
             (let (neg, r1) = split_sign r
              in case digitpart r1 of
                   None \<Rightarrow> None
                 | Some (ds, r2) \<Rightarrow>
                     Some (if neg then - digits_value ds else digits_value ds, r2))
           else Some (0, s)))"

definition pow10 :: "int \<Rightarrow> rat" where
  "pow10 e = (if 0 \<le> e then 10 ^ nat e else 1 / 10 ^ nat (- e))"

definition py_float :: "string \<Rightarrow> error + double" where
  "py_float s =
     (let (neg, u) = split_sign (strip s); l = map lower_kw u
      in if l = ''inf'' \<or> l = ''infinity'' then Inr (Inf neg)
         else if l = ''nan'' then Inr NaN
         else case number u of
                None \<Rightarrow> Inl ValueError
              | Some (ip, fp, r) \<Rightarrow>
                  (case exponent r of
                     None \<Rightarrow> Inl ValueError
                   | Some (e, r') \<Rightarrow>
                       (if r' \<noteq> [] then Inl ValueError
                        else let v = of_int (digits_value (ip @ fp)) * pow10 (e - int (length fp))
                             in if v = 0 then Inr (signed_zero neg)
                                else Inr (to_double (if neg then - v else v)))))"

subsection \<open>The random module\<close>

text \<open>
  The generator's state is the sequence of raw draws (integers) still to come; an exhausted
  sequence keeps yielding 0. Each library function turns raw draws into a result within its
  documented range, so that quantifying over all sequences covers every outcome of the
  library.
\<close>

type_synonym rng = "int list"

fun draw :: "rng \<Rightarrow> int \<times> rng" where
  "draw [] = (0, [])"
| "draw (r # g) = (r, g)"

text \<open>\<open>random.randint(a, b)\<close>: an integer N with \<open>a \<le> N \<le> b\<close>.\<close>

definition randint :: "int \<Rightarrow> int \<Rightarrow> rng \<Rightarrow> int \<times> rng" where
  "randint a b g = (let (r, g') = draw g in (a + r mod (b - a + 1), g'))"

text \<open>\<open>random.random()\<close>: a multiple of \<open>2^-53\<close> in \<open>[0, 1)\<close>.\<close>

definition random :: "rng \<Rightarrow> double \<times> rng" where
  "random g = (let (r, g') = draw g in (Fin (of_int (r mod 2 ^ 53) / 2 ^ 53), g'))"

definition dneg :: "double \<Rightarrow> double" where
  "dneg d =
     (case d of
        Fin x \<Rightarrow> (if x = 0 then NegZero else Fin (- x))
      | NegZero \<Rightarrow> Fin 0
      | Inf s \<Rightarrow> Inf (\<not> s)
      | NaN \<Rightarrow> NaN)"

definition dsub :: "double \<Rightarrow> double \<Rightarrow> double" where
  "dsub x y = dadd x (dneg y)"

text \<open>\<open>random.uniform(a, b)\<close> is \<open>a + (b - a) * random()\<close>.\<close>

definition uniform :: "double \<Rightarrow> double \<Rightarrow> rng \<Rightarrow> double \<times> rng" where
  "uniform a b g = (let (u, g') = random g in (dadd a (dmul (dsub b a) u), g'))"

text \<open>
  \<open>random.sample(population, k)\<close>: ValueError unless \<open>0 \<le> k \<le> len(population)\<close>;
  otherwise \<open>k\<close> elements at distinct positions, in selection order.
\<close>

fun sample_from :: "'a list \<Rightarrow> nat \<Rightarrow> rng \<Rightarrow> 'a list \<times> rng" where
  "sample_from pool 0 g = ([], g)"
| "sample_from pool (Suc k) g =
     (let (r, g1) = draw g;
          j = nat (r mod int (length pool));
          (chosen, g2) = sample_from (take j pool @ drop (Suc j) pool) k g1
      in (pool ! j # chosen, g2))"

definition sample :: "'a list \<Rightarrow> int \<Rightarrow> rng \<Rightarrow> error + 'a list \<times> rng" where
  "sample population k g =
     (if 0 \<le> k \<and> k \<le> int (length population)
      then Inr (sample_from population (nat k) g)
      else Inl ValueError)"

text \<open>\<open>random.choice(seq)\<close>.\<close>

definition choice :: "'a list \<Rightarrow> rng \<Rightarrow> error + 'a \<times> rng" where
  "choice seq g =
     (if seq = [] then Inl KeyError
      else let (r, g') = draw g in Inr (seq ! nat (r mod int (length seq)), g'))"

text \<open>
  \<open>random.choices(population, weights)[0]\<close>: the position is the number of cumulative
  weights not above \<open>random() * total\<close>, at most the last position.
\<close>

definition cumulative :: "int list \<Rightarrow> int list" where
  "cumulative ws = map (\<lambda>i. sum_list (take (Suc i) ws)) [0 ..< length ws]"

definition choices1 :: "'a list \<Rightarrow> int list \<Rightarrow> rng \<Rightarrow> 'a \<times> rng" where
  "choices1 population weights g =
     (let (u, g') = random g;
          cum = cumulative weights;
          v = dmul u (Fin (of_int (last cum)));
          i = length (filter (\<lambda>c. case v of Fin x \<Rightarrow> of_int c \<le> x | _ \<Rightarrow> False) cum)
      in (population ! min i (length population - 1), g'))"

subsection \<open>Dates: \<open>datetime.strptime\<close>, \<open>timedelta\<close>, \<open>strftime\<close>\<close>

text \<open>
  A \<open>datetime\<close> read with the format \<open>%Y-%m-%d\<close> has time 00:00:00, and adding whole
  days keeps it so: it is modelled by its proleptic Gregorian ordinal (day 1 is
  0001-01-01, day 3652059 is 9999-12-31). The calendar functions are those of the
  datetime module.
\<close>

type_synonym datetime = int

definition DAYS_IN_MONTH :: "int list" where
  "DAYS_IN_MONTH = [-1, 31, 28, 31, 30, 31, 30, 31, 31, 30, 31, 30, 31]"

definition DAYS_BEFORE_MONTH :: "int list" where
  "DAYS_BEFORE_MONTH = [-1, 0, 31, 59, 90, 120, 151, 181, 212, 243, 273, 304, 334]"

definition is_leap :: "int \<Rightarrow> bool" where
  "is_leap year = (year mod 4 = 0 \<and> (year mod 100 \<noteq> 0 \<or> year mod 400 = 0))"

definition days_before_year :: "int \<Rightarrow> int" where
  "days_before_year year =
     (let y = year - 1 in y * 365 + y div 4 - y div 100 + y div 400)"

definition days_in_month :: "int \<Rightarrow> int \<Rightarrow> int" where
  "days_in_month year month =
     (if month = 2 \<and> is_leap year then 29 else DAYS_IN_MONTH ! nat month)"

definition days_before_month :: "int \<Rightarrow> int \<Rightarrow> int" where
  "days_before_month year month =
     DAYS_BEFORE_MONTH ! nat month + (if 2 < month \<and> is_leap year then 1 else 0)"

definition ymd2ord :: "int \<Rightarrow> int \<Rightarrow> int \<Rightarrow> int" where
  "ymd2ord year month day = days_before_year year + days_before_month year month + day"

definition ord2ymd :: "int \<Rightarrow> int \<times> int \<times> int" where
  "ord2ymd ordinal =
     (let n = ordinal - 1;
          n400 = n div 146097; n = n mod 146097;
          year = n400 * 400 + 1;
          n100 = n div 36524; n = n mod 36524;
          n4 = n div 1461; n = n mod 1461;
          n1 = n div 365; n = n mod 365;
          year = year + n100 * 100 + n4 * 4 + n1
      in if n1 = 4 \<or> n100 = 4 then (year - 1, 12, 31)
         else let leapyear = (n1 = 3 \<and> (n4 \<noteq> 24 \<or> n100 = 3));
                  month = (n + 50) div 32;
                  preceding = DAYS_BEFORE_MONTH ! nat month
                              + (if 2 < month \<and> leapyear then 1 else 0)
              in if n < preceding
                 then let month = month - 1;
                          preceding = preceding
                            - (DAYS_IN_MONTH ! nat month
                               + (if month = 2 \<and> leapyear then 1 else 0))
                      in (year, month, n - preceding + 1)
                 else (year, month, n - preceding + 1))"

text \<open>
  The format's regular expression is
  \<open>(\d\d\d\d)-(1[0-2]|0[1-9]|[1-9])-(3[01]|[12]\d|0[1-9]|[1-9]| [1-9])\<close>; the alternatives
  are tried in this order. Each function lists the ways its group matches a prefix of the
  text, with the value read and the rest.
\<close>

definition is_digit :: "char \<Rightarrow> bool" where
  "is_digit c = (digit_val c \<noteq> None)"

definition dv :: "char \<Rightarrow> int" where
  "dv c = (case digit_val c of Some d \<Rightarrow> int d | None \<Rightarrow> 0)"

definition nonzero_digit :: "char \<Rightarrow> bool" where
  "nonzero_digit c = (is_digit c \<and> c \<noteq> CHR ''0'')"

definition match_month :: "string \<Rightarrow> (int \<times> string) list" where
  "match_month s =
     (case s of
        [] \<Rightarrow> []
      | [a] \<Rightarrow> (if nonzero_digit a then [(dv a, [])] else [])
      | a # b # r \<Rightarrow>
          (if a = CHR ''1'' \<and> (b = CHR ''0'' \<or> b = CHR ''1'' \<or> b = CHR ''2'')
           then [(10 + dv b, r)] else [])
          @ (if a = CHR ''0'' \<and> nonzero_digit b then [(dv b, r)] else [])
          @ (if nonzero_digit a then [(dv a, b # r)] else []))"

definition match_day :: "string \<Rightarrow> (int \<times> string) list" where
  "match_day s =
     (case s of
        [] \<Rightarrow> []
      | [a] \<Rightarrow> (if nonzero_digit a then [(dv a, [])] else [])
      | a # b # r \<Rightarrow>
          (if a = CHR ''3'' \<and> (b = CHR ''0'' \<or> b = CHR ''1'') then [(30 + dv b, r)] else [])
          @ (if (a = CHR ''1'' \<or> a = CHR ''2'') \<and> is_digit b then [(10 * dv a + dv b, r)]
             else [])
          @ (if a = CHR ''0'' \<and> nonzero_digit b then [(dv b, r)] else [])
          @ (if nonzero_digit a then [(dv a, b # r)] else [])
          @ (if a = CHR '' '' \<and> nonzero_digit b then [(dv b, r)] else []))"

text \<open>The first match of the whole expression: year, month, day and the unread rest.\<close>

definition match_date :: "string \<Rightarrow> (int \<times> int \<times> int \<times> string) option" where
  "match_date s =
     (case s of
        y1 # y2 # y3 # y4 # sep # r \<Rightarrow>
          (if is_digit y1 \<and> is_digit y2 \<and> is_digit y3 \<and> is_digit y4 \<and> sep = CHR ''-''
           then
             (case concat
                     (map (\<lambda>(m, r1).
                             case r1 of
                               [] \<Rightarrow> []
                             | sep2 # r2 \<Rightarrow>
                                 (if sep2 = CHR ''-''
                                  then map (\<lambda>(d, r3).
                                         (1000 * dv y1 + 100 * dv y2 + 10 * dv y3 + dv y4,
                                          m, d, r3))
                                       (match_day r2)
                                  else []))
                          (match_month r))
              of [] \<Rightarrow> None
               | found # _ \<Rightarrow> Some found)
           else None)
      | _ \<Rightarrow> None)"

text \<open>
  \<open>datetime.strptime(s, '%Y-%m-%d')\<close>: ValueError when the text does not match, when
  text remains after the match, or when the date does not exist.
\<close>

definition strptime :: "string \<Rightarrow> error + datetime" where
  "strptime s =
     (case match_date s of
        None \<Rightarrow> Inl ValueError
      | Some (year, month, day, rest) \<Rightarrow>
          (if rest \<noteq> [] then Inl ValueError
           else if year < 1 \<or> days_in_month year month < day then Inl ValueError
           else Inr (ymd2ord year month day)))"

text \<open>\<open>d + timedelta(days=n)\<close>: OverflowError outside the years 1 to 9999.\<close>

definition add_days :: "datetime \<Rightarrow> int \<Rightarrow> error + datetime" where
  "add_days d n =
     (if 1 \<le> d + n \<and> d + n \<le> 3652059 then Inr (d + n) else Inl OverflowError)"

definition zero_pad :: "nat \<Rightarrow> string \<Rightarrow> string" where
  "zero_pad w s = replicate (w - length s) CHR ''0'' @ s"

text \<open>\<open>d.strftime('%Y-%m-%d')\<close>, the year written with four digits.\<close>

definition strftime :: "datetime \<Rightarrow> string" where
  "strftime d =
     (let (year, month, day) = ord2ymd d
      in zero_pad 4 (show_int year) @ ''-'' @ zero_pad 2 (show_int month) @ ''-''
         @ zero_pad 2 (show_int day))"

subsection \<open>Records of the five record sets\<close>

text \<open>
  A row read by \<open>csv.DictReader\<close> is a dictionary from the header's column names to
  text; the rows are modelled as records of the columns of each file.
\<close>

record customer =
  c_customer_id :: string
  first_name :: string
  last_name :: string
  email :: string
  phone :: string
  registration_date :: string
  country :: string
  city :: string
  postal_code :: string

record product =
  product_id :: string
  product_name :: string
  category :: string
  brand :: string
  price :: string
  stock_quantity :: string
  supplier_id :: string

record order_row =
  order_id :: string
  customer_id :: string
  order_date :: string
  order_status :: string
  total_amount :: string
  shipping_address :: string
  payment_method :: string

text \<open>
  An order in memory: the row read, and the key \<open>calculated_total\<close> that the first loop
  adds to the dictionary (\<open>None\<close> while the key is absent).
\<close>

record order_dict =
  row :: order_row
  calculated_total :: "string option"

record order_item =
  oi_order_item_id :: int
  oi_order_id :: string
  oi_product_id :: string
  oi_quantity :: int
  oi_unit_price :: string
  oi_subtotal :: string

record review =
  rv_review_id :: int
  rv_product_id :: string
  rv_customer_id :: string
  rv_rating :: int
  rv_review_text :: string
  rv_review_date :: string

text \<open>An entry of \<open>customer_product_map\<close>: a purchased product and the date of its order.\<close>

record product_order =
  po_product_id :: string
  po_order_date :: string

text \<open>The files under \<open>data/\<close>; \<open>None\<close> is a file that does not exist.\<close>

record files =
  customers_csv :: "customer list option"
  products_csv :: "product list option"
  orders_csv :: "order_row list option"
  order_items_csv :: "order_item list option"
  reviews_csv :: "review list option"

text \<open>The script's variables that the loops update.\<close>

record state =
  rng :: rng
  order_item_id :: int
  order_items :: "order_item list"
  review_id :: int
  review_count :: int
  reviews :: "review list"

subsection \<open>Generating the order items (lines 21 to 51)\<close>

text \<open>\<open>quantity * unit_price\<close>: an int times a float.\<close>

definition int_times_float :: "int \<Rightarrow> double \<Rightarrow> error + double" where
  "int_times_float n x =
     (case double_of_int n of Inl e \<Rightarrow> Inl e | Inr d \<Rightarrow> Inr (dmul d x))"

text \<open>
  The inner loop \<open>for product in selected_products\<close>. The running \<open>total\<close> starts as the
  int 0, which the first \<open>total += subtotal\<close> converts to the float 0.0; it is kept as a
  float from the start (\<open>0\<close> and \<open>0.0\<close> are also formatted alike).
\<close>

fun items_loop :: "order_row \<Rightarrow> product list \<Rightarrow> state \<times> double \<Rightarrow> error + state \<times> double" where
  "items_loop ord [] (s, tot) = Inr (s, tot)"
| "items_loop ord (product # selected_products) (s, tot) =
     (let (quantity, g) = randint 1 3 (rng s)
      in case py_float (price product) of
           Inl e \<Rightarrow> Inl e
         | Inr unit_price \<Rightarrow>
             (case int_times_float quantity unit_price of
                Inl e \<Rightarrow> Inl e
              | Inr subtotal \<Rightarrow>
                  items_loop ord selected_products
                    (s\<lparr>rng := g,
                       order_items := order_items s @
                         [\<lparr>oi_order_item_id = order_item_id s,
                           oi_order_id = order_id ord,
                           oi_product_id = product_id product,
                           oi_quantity = quantity,
                           oi_unit_price = format_2f unit_price,
                           oi_subtotal = format_2f subtotal\<rparr>],
                       order_item_id := order_item_id s + 1\<rparr>,
                     dadd tot subtotal)))"

text \<open>The body of \<open>for order in orders\<close>: the order with its total, and the new state.\<close>

definition process_order :: "product list \<Rightarrow> order_dict \<Rightarrow> state \<Rightarrow> error + order_dict \<times> state" where
  "process_order products ord s =
     (let (num_items, g) =
            (if order_status (row ord) = ''Cancelled'' then randint 1 3 (rng s)
             else randint 1 5 (rng s))
      in case sample products num_items g of
           Inl e \<Rightarrow> Inl e
         | Inr (selected_products, g') \<Rightarrow>
             (case items_loop (row ord) selected_products (s\<lparr>rng := g'\<rparr>, Fin 0) of
                Inl e \<Rightarrow> Inl e
              | Inr (s', tot) \<Rightarrow>
                  Inr (ord\<lparr>calculated_total := Some (format_2f tot)\<rparr>, s')))"

fun orders_loop :: "product list \<Rightarrow> order_dict list \<Rightarrow> state \<Rightarrow> error + order_dict list \<times> state" where
  "orders_loop products [] s = Inr ([], s)"
| "orders_loop products (ord # orders) s =
     (case process_order products ord s of
        Inl e \<Rightarrow> Inl e
      | Inr (ord', s') \<Rightarrow>
          (case orders_loop products orders s' of
             Inl e \<Rightarrow> Inl e
           | Inr (orders', s'') \<Rightarrow> Inr (ord' # orders', s'')))"

subsection \<open>Rewriting orders.csv (lines 62 to 76)\<close>

text \<open>
  The file is opened for writing, which empties it, and the rows are written one by one:
  the rows written, and the exception that stopped the loop, if any.
\<close>

fun write_orders :: "order_dict list \<Rightarrow> order_row list \<times> error option" where
  "write_orders [] = ([], None)"
| "write_orders (ord # orders) =
     (case calculated_total ord of
        None \<Rightarrow> ([], Some KeyError)
      | Some t \<Rightarrow>
          (let (rows, err) = write_orders orders
           in (\<lparr>order_id = order_id (row ord),
                customer_id = customer_id (row ord),
                order_date = order_date (row ord),
                order_status = order_status (row ord),
                total_amount = t,
                shipping_address = shipping_address (row ord),
                payment_method = payment_method (row ord)\<rparr> # rows, err)))"

subsection \<open>The purchases of each customer (lines 85 to 95)\<close>

text \<open>
  \<open>customer_product_map\<close> is a dictionary, iterated in the order in which its keys were
  first inserted: an association list in that order.
\<close>

type_synonym customer_map = "(string \<times> product_order list) list"

fun map_append :: "string \<Rightarrow> product_order \<Rightarrow> customer_map \<Rightarrow> customer_map" where
  "map_append k v [] = [(k, [v])]"
| "map_append k v ((k', vs) # m) =
     (if k = k' then (k', vs @ [v]) # m else (k', vs) # map_append k v m)"

definition add_item :: "order_dict list \<Rightarrow> customer_map \<Rightarrow> order_item \<Rightarrow> customer_map" where
  "add_item orders m item =
     (case find (\<lambda>od. order_id (row od) = oi_order_id item) orders of
        None \<Rightarrow> m
      | Some ord \<Rightarrow>
          (if order_status (row ord) \<in> set [''Delivered'', ''Shipped'']
           then map_append (customer_id (row ord))
                  \<lparr>po_product_id = oi_product_id item,
                   po_order_date = order_date (row ord)\<rparr> m
           else m))"

definition build_customer_product_map :: "order_dict list \<Rightarrow> order_item list \<Rightarrow> customer_map" where
  "build_customer_product_map orders items = foldl (add_item orders) [] items"

subsection \<open>Generating the reviews (lines 97 to 135)\<close>

definition review_texts :: "int \<Rightarrow> string list option" where
  "review_texts rating =
     (if rating = 5 then
        Some [''Excellent product! Exceeded my expectations.'',
              ''Perfect! Exactly what I needed.'',
              ''Outstanding quality and fast delivery.'',
              ''Absolutely love it! Highly recommend.'',
              ''Best purchase ever! Five stars!'']
      else if rating = 4 then
        Some [''Very good product, happy with purchase.'',
              ''Good quality, works as expected.'',
              ''Great product, minor issues but overall satisfied.'',
              ''Solid product, would buy again.'',
              ''Nice item, good value for money.'']
      else if rating = 3 then
        Some [''Decent product, meets basic needs.'',
              ''Average quality, nothing special.'',
              ''It's okay, works fine but not amazing.'',
              ''Fair product for the price.'',
              ''Acceptable, does what it says.'']
      else if rating = 2 then
        Some [''Disappointed, expected better quality.'',
              ''Not great, has some issues.'',
              ''Below expectations, wouldn't recommend.'',
              ''Poor quality, not worth the price.'',
              ''Unsatisfied, had problems with it.'']
      else if rating = 1 then
        Some [''Terrible product, waste of money.'',
              ''Very disappointed, does not work.'',
              ''Awful quality, returned immediately.'',
              ''Complete disaster, do not buy.'',
              ''Worst purchase, totally unusable.'']
      else None)"

text \<open>
  The inner loop \<open>for product_order in reviewed_products\<close>, with its \<open>break\<close> once 200
  reviews exist.
\<close>

fun reviews_loop :: "string \<Rightarrow> product_order list \<Rightarrow> state \<Rightarrow> error + state" where
  "reviews_loop cid [] s = Inr s"
| "reviews_loop cid (product_order # reviewed_products) s =
     (if 200 \<le> review_count s then Inr s
      else
        let (rating, g1) = choices1 [5, 4, 3, 2, 1] [40, 30, 15, 10, 5] (rng s)
        in case review_texts rating of
             None \<Rightarrow> Inl KeyError
           | Some texts \<Rightarrow>
               (case choice texts g1 of
                  Inl e \<Rightarrow> Inl e
                | Inr (review_text, g2) \<Rightarrow>
                    (case strptime (po_order_date product_order) of
                       Inl e \<Rightarrow> Inl e
                     | Inr order_dt \<Rightarrow>
                         (let (days, g3) = randint 1 30 g2
                          in case add_days order_dt days of
                               Inl e \<Rightarrow> Inl e
                             | Inr review_dt \<Rightarrow>
                                 reviews_loop cid reviewed_products
                                   (s\<lparr>rng := g3,
                                      reviews := reviews s @
                                        [\<lparr>rv_review_id = review_id s,
                                          rv_product_id = po_product_id product_order,
                                          rv_customer_id = cid,
                                          rv_rating = rating,
                                          rv_review_text = review_text,
                                          rv_review_date = strftime review_dt\<rparr>],
                                      review_id := review_id s + 1,
                                      review_count := review_count s + 1\<rparr>)))))"

text \<open>\<open>max(1, int(len(product_orders) * random.uniform(0.2, 0.4)))\<close>.\<close>

definition num_reviews_of :: "product_order list \<Rightarrow> rng \<Rightarrow> error + int \<times> rng" where
  "num_reviews_of product_orders g =
     (let (u, g') = uniform (to_double (2 / 10)) (to_double (4 / 10)) g
      in case int_times_float (int (length product_orders)) u of
           Inl e \<Rightarrow> Inl e
         | Inr x \<Rightarrow>
             (case int_of_double x of
                Inl e \<Rightarrow> Inl e
              | Inr n \<Rightarrow> Inr (max 1 n, g')))"

text \<open>
  The outer loop \<open>for customer_id, product_orders in customer_product_map.items()\<close>,
  with its \<open>break\<close>.
\<close>

fun customers_loop :: "customer_map \<Rightarrow> state \<Rightarrow> error + state" where
  "customers_loop [] s = Inr s"
| "customers_loop ((cid, product_orders) # m) s =
     (if 200 \<le> review_count s then Inr s
      else
        case num_reviews_of product_orders (rng s) of
          Inl e \<Rightarrow> Inl e
        | Inr (num_reviews, g) \<Rightarrow>
            (case sample product_orders (min num_reviews (int (length product_orders))) g of
               Inl e \<Rightarrow> Inl e
             | Inr (reviewed_products, g') \<Rightarrow>
                 (case reviews_loop cid reviewed_products (s\<lparr>rng := g'\<rparr>) of
                    Inl e \<Rightarrow> Inl e
                  | Inr s' \<Rightarrow> customers_loop m s')))"

subsection \<open>The script\<close>

text \<open>The counters and lists as the script initialises them (lines 22, 23, 81, 82, 106).\<close>

definition initial_state :: "rng \<Rightarrow> state" where
  "initial_state g =
     \<lparr>rng = g, order_item_id = 5001, order_items = [],
      review_id = 6001, review_count = 0, reviews = []\<rparr>"

definition read_orders :: "order_row list \<Rightarrow> order_dict list" where
  "read_orders order_rows = map (\<lambda>r. \<lparr>row = r, calculated_total = None\<rparr>) order_rows"

text \<open>
  One run on the files \<open>fs\<close> with the random draws \<open>g\<close>: the files afterwards, and the
  exception that ended the run, if any. A missing input file raises when it is opened;
  an empty file reads as the empty list. The three outputs are written at lines 54, 63
  and 138, each when the script reaches it.
\<close>

definition generate_data :: "files \<Rightarrow> rng \<Rightarrow> files \<times> error option" where
  "generate_data fs g =
     (case customers_csv fs of
        None \<Rightarrow> (fs, Some FileNotFoundError)
      | Some customers \<Rightarrow>
     (case products_csv fs of
        None \<Rightarrow> (fs, Some FileNotFoundError)
      | Some products \<Rightarrow>
     (case orders_csv fs of
        None \<Rightarrow> (fs, Some FileNotFoundError)
      | Some order_rows \<Rightarrow>
     (case orders_loop products (read_orders order_rows) (initial_state g) of
        Inl e \<Rightarrow> (fs, Some e)
      | Inr (orders, s1) \<Rightarrow>
     (let fs1 = fs\<lparr>order_items_csv := Some (order_items s1)\<rparr>;
          (rows, err) = write_orders orders;
          fs2 = fs1\<lparr>orders_csv := Some rows\<rparr>
      in case err of
           Some e \<Rightarrow> (fs2, Some e)
         | None \<Rightarrow>
     (let customer_product_map = build_customer_product_map orders (order_items s1)
      in case customers_loop customer_product_map s1 of
           Inl e \<Rightarrow> (fs2, Some e)
         | Inr s2 \<Rightarrow> (fs2\<lparr>reviews_csv := Some (reviews s2)\<rparr>, None)))))))"

subsection \<open>Example runs\<close>

text \<open>
  One product, one delivered order, and draws that select quantity 2, a five-star rating
  and a review five days after the order.
\<close>

definition example_files :: files where
  "example_files =
     \<lparr>customers_csv = Some [],
      products_csv = Some
        [\<lparr>product_id = ''1'', product_name = ''Lamp'', category = ''Home'', brand = ''Lux'',
          price = ''10.00'', stock_quantity = ''4'', supplier_id = ''9''\<rparr>],
      orders_csv = Some
        [\<lparr>order_id = ''1001'', customer_id = ''7'', order_date = ''2025-01-01'',
          order_status = ''Delivered'', total_amount = ''0.00'',
          shipping_address = ''1 Main St'', payment_method = ''Card''\<rparr>],
      order_items_csv = None,
      reviews_csv = None\<rparr>"

definition example_draws :: rng where
  "example_draws = [0, 0, 1, 0, 0, 0, 0, 4]"

definition example_result :: files where
  "example_result =
     example_files
       \<lparr>order_items_csv := Some
          [\<lparr>oi_order_item_id = 5001, oi_order_id = ''1001'', oi_product_id = ''1'',
            oi_quantity = 2, oi_unit_price = ''10.00'', oi_subtotal = ''20.00''\<rparr>],
        orders_csv := Some
          [\<lparr>order_id = ''1001'', customer_id = ''7'', order_date = ''2025-01-01'',
            order_status = ''Delivered'', total_amount = ''20.00'',
            shipping_address = ''1 Main St'', payment_method = ''Card''\<rparr>],
        reviews_csv := Some
          [\<lparr>rv_review_id = 6001, rv_product_id = ''1'', rv_customer_id = ''7'',
            rv_rating = 5,
            rv_review_text = ''Excellent product! Exceeded my expectations.'',
            rv_review_date = ''2025-01-06''\<rparr>]\<rparr>"

text \<open>A state in which 200 reviews have been counted.\<close>

definition capped_state :: state where
  "capped_state = (initial_state [3, 1, 4])\<lparr>review_count := 200\<rparr>"

text \<open>
  One customer with five delivered orders of the same product on different dates; the
  draws make the customer review the first two purchases.
\<close>

definition dup_order :: "string \<Rightarrow> string \<Rightarrow> string \<Rightarrow> order_row" where
  "dup_order oid date amount =
     \<lparr>order_id = oid, customer_id = ''7'', order_date = date,
      order_status = ''Delivered'', total_amount = amount,
      shipping_address = ''1 Main St'', payment_method = ''Card''\<rparr>"

definition dup_item :: "int \<Rightarrow> string \<Rightarrow> order_item" where
  "dup_item i oid =
     \<lparr>oi_order_item_id = i, oi_order_id = oid, oi_product_id = ''1'',
      oi_quantity = 1, oi_unit_price = ''10.00'', oi_subtotal = ''10.00''\<rparr>"

definition dup_review :: "int \<Rightarrow> string \<Rightarrow> review" where
  "dup_review i date =
     \<lparr>rv_review_id = i, rv_product_id = ''1'', rv_customer_id = ''7'', rv_rating = 5,
      rv_review_text = ''Excellent product! Exceeded my expectations.'',
      rv_review_date = date\<rparr>"

definition duplicate_files :: files where
  "duplicate_files =
     example_files
       \<lparr>orders_csv := Some
          [dup_order ''1001'' ''2025-01-01'' ''0.00'', dup_order ''1002'' ''2025-02-01'' ''0.00'',
           dup_order ''1003'' ''2025-03-01'' ''0.00'', dup_order ''1004'' ''2025-04-01'' ''0.00'',
           dup_order ''1005'' ''2025-05-01'' ''0.00'']\<rparr>"

definition duplicate_draws :: rng where
  "duplicate_draws =
     [0, 0, 0,  0, 0, 0,  0, 0, 0,  0, 0, 0,  0, 0, 0,
      9007199254740991, 0, 0,
      0, 0, 0,  0, 0, 0]"

definition duplicate_result :: files where
  "duplicate_result =
     example_files
       \<lparr>order_items_csv := Some
          [dup_item 5001 ''1001'', dup_item 5002 ''1002'', dup_item 5003 ''1003'',
           dup_item 5004 ''1004'', dup_item 5005 ''1005''],
        orders_csv := Some
          [dup_order ''1001'' ''2025-01-01'' ''10.00'', dup_order ''1002'' ''2025-02-01'' ''10.00'',
           dup_order ''1003'' ''2025-03-01'' ''10.00'', dup_order ''1004'' ''2025-04-01'' ''10.00'',
           dup_order ''1005'' ''2025-05-01'' ''10.00''],
        reviews_csv := Some
          [dup_review 6001 ''2025-01-02'', dup_review 6002 ''2025-02-02'']\<rparr>"




section \<open>Properties\<close>

subsection \<open>The example run\<close>

lemma example_run: "generate_data example_files example_draws = (example_result, None)"
  by code_simp

lemma duplicate_run:
  "generate_data duplicate_files duplicate_draws = (duplicate_result, None)"
  by code_simp


subsection \<open>A successful run, step by step\<close>

lemma generate_data_success:
  assumes "generate_data fs g = (fs', None)"
  obtains customers products order_rows orders s1 rows s2 where
    "customers_csv fs = Some customers"
    "products_csv fs = Some products"
    "orders_csv fs = Some order_rows"
    "orders_loop products (read_orders order_rows) (initial_state g) = Inr (orders, s1)"
    "write_orders orders = (rows, None)"
    "customers_loop (build_customer_product_map orders (order_items s1)) s1 = Inr s2"
    "fs' = fs\<lparr>order_items_csv := Some (order_items s1), orders_csv := Some rows,
               reviews_csv := Some (reviews s2)\<rparr>"
  using assms unfolding generate_data_def
  by (auto simp: Let_def split: option.splits sum.splits prod.splits)

subsection \<open>The identifier counters\<close>

lemma items_loop_frame:
  "items_loop ord ps (s, t) = Inr (s', t') \<Longrightarrow>
     review_id s' = review_id s \<and> review_count s' = review_count s \<and> reviews s' = reviews s"
  by (induction ps arbitrary: s t) (auto split: prod.splits sum.splits)

lemma items_loop_ids:
  "items_loop ord ps (s, t) = Inr (s', t') \<Longrightarrow>
   map oi_order_item_id (order_items s) = [5001 .. order_item_id s - 1] \<Longrightarrow>
   5001 \<le> order_item_id s \<Longrightarrow>
     map oi_order_item_id (order_items s') = [5001 .. order_item_id s' - 1]
     \<and> 5001 \<le> order_item_id s'"
proof (induction ps arbitrary: s t)
  case Nil
  then show ?case by simp
next
  case (Cons p ps)
  from Cons.prems(1) obtain q g up sub where
    rec: "items_loop ord ps
       (s\<lparr>rng := g,
          order_items := order_items s @
            [\<lparr>oi_order_item_id = order_item_id s, oi_order_id = order_id ord,
              oi_product_id = product_id p, oi_quantity = q,
              oi_unit_price = format_2f up, oi_subtotal = format_2f sub\<rparr>],
          order_item_id := order_item_id s + 1\<rparr>, dadd t sub) = Inr (s', t')"
    by (auto split: prod.splits sum.splits)
  have "[5001 .. order_item_id s] = [5001 .. order_item_id s - 1] @ [order_item_id s]"
    using Cons.prems(3) by (simp add: upto_rec2)
  with Cons.prems(2,3) show ?case
    by (intro Cons.IH [OF rec]) simp_all
qed

lemma process_order_ids:
  "process_order products ord s = Inr (ord', s') \<Longrightarrow>
   map oi_order_item_id (order_items s) = [5001 .. order_item_id s - 1] \<Longrightarrow>
   5001 \<le> order_item_id s \<Longrightarrow>
     map oi_order_item_id (order_items s') = [5001 .. order_item_id s' - 1]
     \<and> 5001 \<le> order_item_id s'"
  unfolding process_order_def
  by (auto split: prod.splits sum.splits if_splits dest!: items_loop_ids)

lemma process_order_frame:
  "process_order products ord s = Inr (ord', s') \<Longrightarrow>
     review_id s' = review_id s \<and> review_count s' = review_count s \<and> reviews s' = reviews s"
  unfolding process_order_def
  by (auto split: prod.splits sum.splits if_splits dest!: items_loop_frame)

lemma orders_loop_step:
  assumes "orders_loop products (a # orders) s = Inr (orders', s')"
  obtains a' s1 os where
    "process_order products a s = Inr (a', s1)"
    "orders_loop products orders s1 = Inr (os, s')"
    "orders' = a' # os"
  using assms by (auto split: prod.splits sum.splits)

lemma orders_loop_ids:
  "orders_loop products orders s = Inr (orders', s') \<Longrightarrow>
   map oi_order_item_id (order_items s) = [5001 .. order_item_id s - 1] \<Longrightarrow>
   5001 \<le> order_item_id s \<Longrightarrow>
     map oi_order_item_id (order_items s') = [5001 .. order_item_id s' - 1]
     \<and> 5001 \<le> order_item_id s'"
proof (induction orders arbitrary: s orders')
  case Nil
  then show ?case by simp
next
  case (Cons a orders)
  from Cons.prems(1) obtain a' s1 os where
    a: "process_order products a s = Inr (a', s1)" and
    r: "orders_loop products orders s1 = Inr (os, s')"
    by (rule orders_loop_step)
  from process_order_ids [OF a Cons.prems(2,3)] Cons.IH [OF r] show ?case by simp
qed

lemma orders_loop_frame:
  "orders_loop products orders s = Inr (orders', s') \<Longrightarrow>
     review_id s' = review_id s \<and> review_count s' = review_count s \<and> reviews s' = reviews s"
proof (induction orders arbitrary: s orders')
  case Nil
  then show ?case by simp
next
  case (Cons a orders)
  from Cons.prems(1) obtain a' s1 os where
    a: "process_order products a s = Inr (a', s1)" and
    r: "orders_loop products orders s1 = Inr (os, s')"
    by (rule orders_loop_step)
  from process_order_frame [OF a] Cons.IH [OF r] show ?case by simp
qed

text \<open>
  The invariant of the review loops: the identifiers written so far are 6001 onwards
  without gaps, \<open>review_count\<close> counts the reviews written, and it is at most 200.
\<close>

definition reviews_inv :: "state \<Rightarrow> bool" where
  "reviews_inv s =
     (map rv_review_id (reviews s) = [6001 .. review_id s - 1] \<and> 6001 \<le> review_id s
      \<and> review_count s = int (length (reviews s)) \<and> review_count s \<le> 200)"

lemma reviews_loop_step:
  assumes "reviews_loop cid (po # pos) s = Inr s'" and "\<not> 200 \<le> review_count s"
  obtains rating g1 texts review_text g2 order_dt days g3 review_dt where
    "choices1 [5, 4, 3, 2, 1] [40, 30, 15, 10, 5] (rng s) = (rating, g1)"
    "review_texts rating = Some texts"
    "choice texts g1 = Inr (review_text, g2)"
    "strptime (po_order_date po) = Inr order_dt"
    "randint 1 30 g2 = (days, g3)"
    "add_days order_dt days = Inr review_dt"
    "reviews_loop cid pos
       (s\<lparr>rng := g3,
          reviews := reviews s @
            [\<lparr>rv_review_id = review_id s, rv_product_id = po_product_id po,
              rv_customer_id = cid, rv_rating = rating, rv_review_text = review_text,
              rv_review_date = strftime review_dt\<rparr>],
          review_id := review_id s + 1,
          review_count := review_count s + 1\<rparr>) = Inr s'"
  using assms by (auto split: prod.splits sum.splits option.splits)

lemma reviews_loop_inv:
  "reviews_loop cid pos s = Inr s' \<Longrightarrow> reviews_inv s \<Longrightarrow> reviews_inv s'"
proof (induction pos arbitrary: s)
  case Nil
  then show ?case by simp
next
  case (Cons po pos)
  show ?case
  proof (cases "200 \<le> review_count s")
    case True
    with Cons.prems show ?thesis by simp
  next
    case False
    from Cons.prems(1) False obtain s1 where
      rec: "reviews_loop cid pos s1 = Inr s'" and
      s1: "review_id s1 = review_id s + 1" "review_count s1 = review_count s + 1"
          "\<exists>r. reviews s1 = reviews s @ [r] \<and> rv_review_id r = review_id s"
      by (rule reviews_loop_step) simp
    have "[6001 .. review_id s] = [6001 .. review_id s - 1] @ [review_id s]"
      using Cons.prems(2) by (simp add: upto_rec2 reviews_inv_def)
    with s1 Cons.prems(2) False have "reviews_inv s1"
      by (auto simp: reviews_inv_def)
    with Cons.IH [OF rec] show ?thesis .
  qed
qed

lemma customers_loop_step:
  assumes "customers_loop ((cid, pos) # m) s = Inr s'" and "\<not> 200 \<le> review_count s"
  obtains num_reviews g reviewed_products g' s1 where
    "num_reviews_of pos (rng s) = Inr (num_reviews, g)"
    "sample pos (min num_reviews (int (length pos))) g = Inr (reviewed_products, g')"
    "reviews_loop cid reviewed_products (s\<lparr>rng := g'\<rparr>) = Inr s1"
    "customers_loop m s1 = Inr s'"
  using assms by (auto split: prod.splits sum.splits)

lemma customers_loop_inv:
  "customers_loop m s = Inr s' \<Longrightarrow> reviews_inv s \<Longrightarrow> reviews_inv s'"
proof (induction m arbitrary: s)
  case Nil
  then show ?case by simp
next
  case (Cons a m)
  obtain cid pos where a: "a = (cid, pos)" by (cases a)
  show ?case
  proof (cases "200 \<le> review_count s")
    case True
    with Cons.prems a show ?thesis by simp
  next
    case False
    from Cons.prems(1) [unfolded a] False obtain rp g' s1 where
      l: "reviews_loop cid rp (s\<lparr>rng := g'\<rparr>) = Inr s1" and
      rec: "customers_loop m s1 = Inr s'"
      by (rule customers_loop_step)
    have "reviews_inv (s\<lparr>rng := g'\<rparr>)" using Cons.prems(2) by (simp add: reviews_inv_def)
    from Cons.IH [OF rec reviews_loop_inv [OF l this]] show ?thesis .
  qed
qed

lemma reviews_inv_after_orders:
  assumes "orders_loop products orders (initial_state g) = Inr (orders', s1)"
  shows "reviews_inv s1"
  using orders_loop_frame [OF assms] by (simp add: reviews_inv_def initial_state_def)

lemma upto_length_eq:
  assumes "map f xs = [a .. b - 1]" and "a \<le> (b::int)"
  shows "b - 1 = a - 1 + int (length xs)"
proof -
  have "length xs = length [a .. b - 1]" using assms(1) by (metis length_map)
  with assms(2) show ?thesis by simp
qed

subsection \<open>Sampling\<close>


lemma sample_from_Suc:
  "fst (sample_from pool (Suc k) g) =
     pool ! nat (fst (draw g) mod int (length pool))
     # fst (sample_from (take (nat (fst (draw g) mod int (length pool))) pool
                         @ drop (Suc (nat (fst (draw g) mod int (length pool)))) pool)
              k (snd (draw g)))"
  by (simp add: Let_def split: prod.splits)

lemma sample_from_length: "length (fst (sample_from pool k g)) = k"
proof (induction k arbitrary: pool g)
  case 0
  then show ?case by simp
next
  case (Suc k)
  show ?case unfolding sample_from_Suc by (simp add: Suc.IH)
qed

lemma sample_length:
  "sample pool k g = Inr (xs, g') \<Longrightarrow> int (length xs) = k"
  using sample_from_length [of pool "nat k" g]
  by (auto simp: sample_def split: if_splits)

lemma num_reviews_of_pos:
  "num_reviews_of pos g = Inr (n, g') \<Longrightarrow> 1 \<le> n"
  by (auto simp: num_reviews_of_def split: prod.splits sum.splits)

lemma remove_nth_mset:
  "j < length pool \<Longrightarrow> mset pool = add_mset (pool ! j) (mset (take j pool @ drop (Suc j) pool))"
proof -
  assume j: "j < length pool"
  then have "pool = take j pool @ pool ! j # drop (Suc j) pool"
    by (simp add: id_take_nth_drop)
  then have "mset pool = mset (take j pool @ pool ! j # drop (Suc j) pool)" by simp
  then show ?thesis by simp
qed

lemma sample_from_mset:
  "k \<le> length pool \<Longrightarrow> mset (fst (sample_from pool k g)) \<subseteq># mset pool"
proof (induction k arbitrary: pool g)
  case 0
  then show ?case by simp
next
  case (Suc k)
  obtain r g1 where d: "draw g = (r, g1)" by (cases "draw g")
  define j where "j = nat (r mod int (length pool))"
  have pl: "0 < length pool" using Suc.prems by linarith
  then have j: "j < length pool" unfolding j_def
    by (simp add: nat_less_iff)
  let ?rest = "take j pool @ drop (Suc j) pool"
  have "k \<le> length ?rest" using Suc.prems j by simp
  from Suc.IH [OF this, of g1] have ih: "mset (fst (sample_from ?rest k g1)) \<subseteq># mset ?rest" .
  have sf: "fst (sample_from pool (Suc k) g) = pool ! j # fst (sample_from ?rest k g1)"
    using d by (simp add: j_def Let_def split: prod.splits)
  show ?case unfolding sf using ih remove_nth_mset [OF j] by simp
qed

lemma sample_mset:
  "sample pool k g = Inr (xs, g') \<Longrightarrow> mset xs \<subseteq># mset pool"
  using sample_from_mset [of "nat k" pool g]
  by (auto simp: sample_def split: if_splits)


subsection \<open>The items one order receives\<close>

lemma items_loop_block:
  "items_loop ord ps (s, t) = Inr (s', t') \<Longrightarrow>
     \<exists>block. order_items s' = order_items s @ block
       \<and> map oi_product_id block = map product_id ps
       \<and> (\<forall>i \<in> set block. oi_order_id i = order_id ord)"
proof (induction ps arbitrary: s t)
  case Nil
  then show ?case by simp
next
  case (Cons p ps)
  from Cons.prems(1) obtain q g up sub where
    rec: "items_loop ord ps
       (s\<lparr>rng := g,
          order_items := order_items s @
            [\<lparr>oi_order_item_id = order_item_id s, oi_order_id = order_id ord,
              oi_product_id = product_id p, oi_quantity = q,
              oi_unit_price = format_2f up, oi_subtotal = format_2f sub\<rparr>],
          order_item_id := order_item_id s + 1\<rparr>, dadd t sub) = Inr (s', t')"
    by (auto split: prod.splits sum.splits)
  from Cons.IH [OF rec] obtain block where
    b: "order_items s' = (order_items s @
            [\<lparr>oi_order_item_id = order_item_id s, oi_order_id = order_id ord,
              oi_product_id = product_id p, oi_quantity = q,
              oi_unit_price = format_2f up, oi_subtotal = format_2f sub\<rparr>]) @ block"
       "map oi_product_id block = map product_id ps"
       "\<forall>i \<in> set block. oi_order_id i = order_id ord"
    by auto
  show ?case
    by (rule exI [of _ "\<lparr>oi_order_item_id = order_item_id s, oi_order_id = order_id ord,
              oi_product_id = product_id p, oi_quantity = q,
              oi_unit_price = format_2f up, oi_subtotal = format_2f sub\<rparr> # block"])
       (use b in simp)
qed

lemma randint_range:
  "randint a b g = (n, g') \<Longrightarrow> a \<le> b \<Longrightarrow> a \<le> n \<and> n \<le> b"
  by (auto simp: randint_def split: prod.splits)
     (smt (verit) pos_mod_bound pos_mod_sign)+

definition max_items :: "order_row \<Rightarrow> nat" where
  "max_items r = (if order_status r = ''Cancelled'' then 3 else 5)"

lemma process_order_block:
  assumes "process_order products ord s = Inr (ord', s')"
  shows "\<exists>block. order_items s' = order_items s @ block
       \<and> 1 \<le> length block \<and> length block \<le> max_items (row ord)
       \<and> (\<forall>i \<in> set block. oi_order_id i = order_id (row ord))
       \<and> mset (map oi_product_id block) \<subseteq># mset (map product_id products)"
proof -
  from assms obtain n g sel g' tot where
    n: "(if order_status (row ord) = ''Cancelled'' then randint 1 3 (rng s)
         else randint 1 5 (rng s)) = (n, g)"
    and sm: "sample products n g = Inr (sel, g')"
    and il: "items_loop (row ord) sel (s\<lparr>rng := g'\<rparr>, Fin 0) = Inr (s', tot)"
    unfolding process_order_def by (auto split: prod.splits sum.splits)
  from n have nr: "1 \<le> n \<and> n \<le> int (max_items (row ord))"
    by (auto simp: max_items_def dest: randint_range split: if_splits)
  from items_loop_block [OF il] obtain block where
    b: "order_items s' = order_items s @ block" "map oi_product_id block = map product_id sel"
       "\<forall>i \<in> set block. oi_order_id i = order_id (row ord)"
    by auto
  from b(2) have "length block = length sel" by (metis length_map)
  with sample_length [OF sm] nr have l: "1 \<le> length block \<and> length block \<le> max_items (row ord)"
    by simp
  have "mset (map oi_product_id block) \<subseteq># mset (map product_id products)"
    unfolding b(2) using sample_mset [OF sm] by (metis image_mset_subseteq_mono mset_map)
  with b(1,3) l show ?thesis by blast
qed

lemma process_order_row:
  "process_order products ord s = Inr (ord', s') \<Longrightarrow>
     row ord' = row ord \<and> calculated_total ord' \<noteq> None"
  unfolding process_order_def by (auto split: prod.splits sum.splits)

lemma orders_loop_blocks:
  "orders_loop products orders s = Inr (orders', s') \<Longrightarrow>
     \<exists>blocks. order_items s' = order_items s @ concat blocks
       \<and> list_all2 (\<lambda>ord block.
             1 \<le> length block \<and> length block \<le> max_items (row ord)
             \<and> (\<forall>i \<in> set block. oi_order_id i = order_id (row ord))
             \<and> mset (map oi_product_id block) \<subseteq># mset (map product_id products))
           orders blocks"
proof (induction orders arbitrary: s orders')
  case Nil
  then show ?case by simp
next
  case (Cons a orders)
  from Cons.prems obtain a' s1 os where
    a: "process_order products a s = Inr (a', s1)" and
    r: "orders_loop products orders s1 = Inr (os, s')"
    by (rule orders_loop_step)
  from process_order_block [OF a] obtain block where
    b: "order_items s1 = order_items s @ block"
       "1 \<le> length block \<and> length block \<le> max_items (row a)
        \<and> (\<forall>i \<in> set block. oi_order_id i = order_id (row a))
        \<and> mset (map oi_product_id block) \<subseteq># mset (map product_id products)"
    by auto
  from Cons.IH [OF r] obtain blocks where
    bs: "order_items s' = order_items s1 @ concat blocks"
        "list_all2 (\<lambda>ord block.
             1 \<le> length block \<and> length block \<le> max_items (row ord)
             \<and> (\<forall>i \<in> set block. oi_order_id i = order_id (row ord))
             \<and> mset (map oi_product_id block) \<subseteq># mset (map product_id products))
           orders blocks"
    by auto
  show ?case
    by (rule exI [of _ "block # blocks"]) (use b bs in simp)
qed

lemma orders_loop_rows:
  "orders_loop products orders s = Inr (orders', s') \<Longrightarrow>
     map row orders' = map row orders \<and> (\<forall>x \<in> set orders'. calculated_total x \<noteq> None)"
proof (induction orders arbitrary: s orders')
  case Nil
  then show ?case by simp
next
  case (Cons a orders)
  from Cons.prems obtain a' s1 os where
    a: "process_order products a s = Inr (a', s1)" and
    r: "orders_loop products orders s1 = Inr (os, s')" and
    o: "orders' = a' # os"
    by (rule orders_loop_step)
  from process_order_row [OF a] Cons.IH [OF r] o show ?case by simp
qed

lemma write_orders_frame:
  "\<forall>x \<in> set orders. calculated_total x \<noteq> None \<Longrightarrow>
     snd (write_orders orders) = None
     \<and> list_all2 (\<lambda>r w. w = r\<lparr>total_amount := total_amount w\<rparr>)
          (map row orders) (fst (write_orders orders))
     \<and> map (Some \<circ> total_amount) (fst (write_orders orders)) = map calculated_total orders"
  by (induction orders) (auto split: prod.splits option.splits)

lemma distinct_of_sub_mset:
  assumes "mset xs \<subseteq># mset ys" and "distinct ys"
  shows "distinct xs"
  unfolding distinct_count_atmost_1
proof (intro allI)
  fix a
  have le: "count (mset xs) a \<le> count (mset ys) a"
    using assms(1) by (rule mset_subset_eq_count)
  have "count (mset ys) a \<le> 1"
    using assms(2) by (simp add: distinct_count_atmost_1)
  with le have "count (mset xs) a \<le> 1" by simp
  moreover have "a \<in> set xs \<Longrightarrow> 0 < count (mset xs) a"
    by (rule count_mset_gt_0)
  moreover have "a \<notin> set xs \<Longrightarrow> count (mset xs) a = 0" by simp
  ultimately show "count (mset xs) a = (if a \<in> set xs then 1 else 0)"
  proof (cases "a \<in> set xs")
    case True
    from count_mset_gt_0 [OF True] \<open>count (mset xs) a \<le> 1\<close>
    have "count (mset xs) a = 1" by linarith
    with True show ?thesis by simp
  next
    case False
    then show ?thesis by simp
  qed
qed

lemma distinct_map_of_sub_image_mset:
  "image_mset f (mset xs) \<subseteq># image_mset h (mset ys) \<Longrightarrow> distinct (map h ys) \<Longrightarrow>
     distinct (map f xs)"
  using distinct_of_sub_mset [of "map f xs" "map h ys"] by simp

lemma concat_keys:
  "list_all2 (\<lambda>r b. \<forall>i \<in> set b. key i = kf r) rs bs \<Longrightarrow> i \<in> set (concat bs) \<Longrightarrow>
     key i \<in> kf ` set rs"
  by (induction rule: list_all2_induct) auto

lemma filter_concat_block:
  "list_all2 (\<lambda>r b. \<forall>i \<in> set b. key i = kf r) rs bs \<Longrightarrow> distinct (map kf rs) \<Longrightarrow>
   k < length rs \<Longrightarrow> filter (\<lambda>i. key i = kf (rs ! k)) (concat bs) = bs ! k"
proof (induction arbitrary: k rule: list_all2_induct)
  case Nil
  then show ?case by simp
next
  case (Cons r rs b bs)
  show ?case
  proof (cases k)
    case 0
    have "key i \<noteq> kf r" if "i \<in> set (concat bs)" for i
      using concat_keys [OF Cons.hyps(2) that] Cons.prems(1) by auto
    then have "filter (\<lambda>i. key i = kf r) (concat bs) = []"
      by (simp add: filter_empty_conv)
    moreover have "filter (\<lambda>i. key i = kf r) b = b"
      using Cons.hyps(1) by (simp add: filter_id_conv)
    ultimately show ?thesis using 0 by simp
  next
    case (Suc k')
    with Cons.prems(2) have k': "k' < length rs" by simp
    then have "kf (rs ! k') \<in> kf ` set rs" by simp
    moreover have "kf r \<notin> kf ` set rs" using Cons.prems(1) by simp
    ultimately have "kf (rs ! k') \<noteq> kf r" by metis
    then have "filter (\<lambda>i. key i = kf (rs ! k')) b = []"
      using Cons.hyps(1) by (auto simp: filter_empty_conv)
    moreover have "filter (\<lambda>i. key i = kf (rs ! k')) (concat bs) = bs ! k'"
      using Cons.IH [OF _ k'] Cons.prems(1) by simp
    ultimately show ?thesis using Suc by simp
  qed
qed

subsection \<open>The run, stage by stage\<close>

lemma read_orders_rows: "map row (read_orders order_rows) = order_rows"
  by (simp add: read_orders_def comp_def)

lemma generate_data_cases:
  assumes "generate_data fs g = (fs', err)"
  shows "(fs' = fs \<and> err \<noteq> None)
     \<or> (\<exists>customers products order_rows orders s1.
           customers_csv fs = Some customers \<and> products_csv fs = Some products
           \<and> orders_csv fs = Some order_rows
           \<and> orders_loop products (read_orders order_rows) (initial_state g) = Inr (orders, s1)
           \<and> ((fs' = fs\<lparr>order_items_csv := Some (order_items s1),
                          orders_csv := Some (fst (write_orders orders))\<rparr>
                \<and> err \<noteq> None)
              \<or> (\<exists>s2. customers_loop (build_customer_product_map orders (order_items s1)) s1
                         = Inr s2
                    \<and> fs' = fs\<lparr>order_items_csv := Some (order_items s1),
                                orders_csv := Some (fst (write_orders orders)),
                                reviews_csv := Some (reviews s2)\<rparr>
                    \<and> err = None)))"
  using assms unfolding generate_data_def
  by (auto simp: Let_def split: option.splits sum.splits prod.splits)

subsection \<open>The calendar: a written date reads back as itself\<close>


























subsection \<open>Where a review comes from\<close>

text \<open>
  \<open>purchase_of\<close>: the pair stems from an item of a Delivered or Shipped order of the
  customer. \<open>review_of\<close>: the review was written for the pair.
\<close>

definition purchase_of :: "order_dict list \<Rightarrow> order_item list \<Rightarrow> string \<Rightarrow> product_order \<Rightarrow> bool" where
  "purchase_of orders items cid po =
     (\<exists>item \<in> set items. \<exists>ord \<in> set orders.
        order_id (row ord) = oi_order_id item
        \<and> order_status (row ord) \<in> {''Delivered'', ''Shipped''}
        \<and> customer_id (row ord) = cid
        \<and> po_product_id po = oi_product_id item
        \<and> po_order_date po = order_date (row ord))"

definition review_of :: "string \<Rightarrow> product_order \<Rightarrow> review \<Rightarrow> bool" where
  "review_of cid po r =
     (rv_customer_id r = cid \<and> rv_product_id r = po_product_id po
      \<and> (\<exists>d n. strptime (po_order_date po) = Inr d \<and> 1 \<le> n \<and> n \<le> 30
                \<and> 1 \<le> d + n \<and> d + n \<le> 3652059
                \<and> rv_review_date r = strftime (d + n)))"

lemma map_append_set:
  "(c, pos) \<in> set (map_append k v m) \<Longrightarrow>
     (c, pos) \<in> set m \<or> (c = k \<and> (pos = [v] \<or> (\<exists>vs. (k, vs) \<in> set m \<and> pos = vs @ [v])))"
  by (induction m) (auto split: if_splits)

lemma map_append_entries:
  assumes "(c, pos) \<in> set (map_append k v m)" and "po \<in> set pos"
  shows "(\<exists>pos'. (c, pos') \<in> set m \<and> po \<in> set pos') \<or> (c = k \<and> po = v)"
proof -
  from map_append_set [OF assms(1)]
  consider "(c, pos) \<in> set m" | "c = k" "pos = [v]"
    | vs where "c = k" "(k, vs) \<in> set m" "pos = vs @ [v]" by blast
  then show ?thesis
  proof cases
    case 1
    with assms(2) show ?thesis by blast
  next
    case 2
    with assms(2) show ?thesis by simp
  next
    case 3
    with assms(2) show ?thesis by auto
  qed
qed

lemma add_item_entries:
  assumes "(c, pos) \<in> set (add_item orders m item)" and "po \<in> set pos"
  shows "(\<exists>pos'. (c, pos') \<in> set m \<and> po \<in> set pos') \<or> purchase_of orders [item] c po"
proof (cases "find (\<lambda>od. order_id (row od) = oi_order_id item) orders")
  case None
  with assms show ?thesis by (auto simp: add_item_def)
next
  case (Some ord)
  then have ord: "ord \<in> set orders" "order_id (row ord) = oi_order_id item"
    by (auto simp: find_Some_iff)
  show ?thesis
  proof (cases "order_status (row ord) \<in> set [''Delivered'', ''Shipped'']")
    case False
    with assms Some show ?thesis by (auto simp: add_item_def)
  next
    case True
    with assms Some have
      "(c, pos) \<in> set (map_append (customer_id (row ord))
          \<lparr>po_product_id = oi_product_id item, po_order_date = order_date (row ord)\<rparr> m)"
      by (simp add: add_item_def)
    from map_append_entries [OF this assms(2)] ord True show ?thesis
      unfolding purchase_of_def by auto
  qed
qed

lemma purchase_of_mono:
  "purchase_of orders items c po \<Longrightarrow> set items \<subseteq> set items' \<Longrightarrow> purchase_of orders items' c po"
  unfolding purchase_of_def by blast

lemma foldl_add_item_entries:
  "(c, pos) \<in> set (foldl (add_item orders) m items) \<Longrightarrow> po \<in> set pos \<Longrightarrow>
     (\<exists>pos'. (c, pos') \<in> set m \<and> po \<in> set pos') \<or> purchase_of orders items c po"
proof (induction items arbitrary: m)
  case Nil
  then show ?case by auto
next
  case (Cons item items)
  from Cons.IH [OF Cons.prems [simplified]]
  consider pos' where "(c, pos') \<in> set (add_item orders m item)" "po \<in> set pos'"
    | "purchase_of orders items c po" by auto
  then show ?case
  proof cases
    case 1
    from add_item_entries [OF 1] show ?thesis
      by (auto intro: purchase_of_mono)
  next
    case 2
    then show ?thesis by (auto intro: purchase_of_mono)
  qed
qed

lemma customer_product_map_entries:
  "(c, pos) \<in> set (build_customer_product_map orders items) \<Longrightarrow> po \<in> set pos \<Longrightarrow>
     purchase_of orders items c po"
  unfolding build_customer_product_map_def
  using foldl_add_item_entries [of c pos orders "[]" items po] by simp

lemma randint_1_30: "randint 1 30 g = (n, g') \<Longrightarrow> 1 \<le> n \<and> n \<le> 30"
  by (rule randint_range) simp_all

lemma reviews_loop_new:
  "reviews_loop cid pos s = Inr s' \<Longrightarrow>
     \<exists>new. reviews s' = reviews s @ new \<and> (\<forall>r \<in> set new. \<exists>po \<in> set pos. review_of cid po r)"
proof (induction pos arbitrary: s)
  case Nil
  then show ?case by simp
next
  case (Cons po pos)
  show ?case
  proof (cases "200 \<le> review_count s")
    case True
    with Cons.prems show ?thesis by simp
  next
    case False
    from Cons.prems False obtain rating g1 texts review_text g2 order_dt days g3 review_dt
    where
      "choices1 [5, 4, 3, 2, 1] [40, 30, 15, 10, 5] (rng s) = (rating, g1)"
      "review_texts rating = Some texts"
      "choice texts g1 = Inr (review_text, g2)" and
      sp: "strptime (po_order_date po) = Inr order_dt" and
      ri: "randint 1 30 g2 = (days, g3)" and
      ad: "add_days order_dt days = Inr review_dt" and
      rec': "reviews_loop cid pos
       (s\<lparr>rng := g3,
          reviews := reviews s @
            [\<lparr>rv_review_id = review_id s, rv_product_id = po_product_id po,
              rv_customer_id = cid, rv_rating = rating, rv_review_text = review_text,
              rv_review_date = strftime review_dt\<rparr>],
          review_id := review_id s + 1,
          review_count := review_count s + 1\<rparr>) = Inr s'"
      by (rule reviews_loop_step)
    define s1 where "s1 = s\<lparr>rng := g3,
          reviews := reviews s @
            [\<lparr>rv_review_id = review_id s, rv_product_id = po_product_id po,
              rv_customer_id = cid, rv_rating = rating, rv_review_text = review_text,
              rv_review_date = strftime review_dt\<rparr>],
          review_id := review_id s + 1,
          review_count := review_count s + 1\<rparr>"
    have s1: "reviews s1 = reviews s @
            [\<lparr>rv_review_id = review_id s, rv_product_id = po_product_id po,
              rv_customer_id = cid, rv_rating = rating, rv_review_text = review_text,
              rv_review_date = strftime review_dt\<rparr>]"
      by (simp add: s1_def)
    have rec: "reviews_loop cid pos s1 = Inr s'" using rec' by (simp add: s1_def)
    from ad have "review_dt = order_dt + days" "1 \<le> order_dt + days"
      "order_dt + days \<le> 3652059"
      by (auto simp: add_days_def split: if_splits)
    with sp randint_1_30 [OF ri] have
      r: "review_of cid po
            \<lparr>rv_review_id = review_id s, rv_product_id = po_product_id po,
              rv_customer_id = cid, rv_rating = rating, rv_review_text = review_text,
              rv_review_date = strftime review_dt\<rparr>"
      unfolding review_of_def by auto
    from Cons.IH [OF rec] obtain new where
      n: "reviews s' = reviews s1 @ new" "\<forall>r \<in> set new. \<exists>po \<in> set pos. review_of cid po r"
      by auto
    show ?thesis
      by (rule exI [of _ "\<lparr>rv_review_id = review_id s, rv_product_id = po_product_id po,
              rv_customer_id = cid, rv_rating = rating, rv_review_text = review_text,
              rv_review_date = strftime review_dt\<rparr> # new"])
         (use n s1 r in auto)
  qed
qed

lemma sample_subset:
  "sample pool k g = Inr (xs, g') \<Longrightarrow> set xs \<subseteq> set pool"
  using sample_mset [of pool k g xs g'] by (metis set_mset_mono set_mset_mset)

lemma customers_loop_new:
  "customers_loop m s = Inr s' \<Longrightarrow>
     \<exists>new. reviews s' = reviews s @ new
       \<and> (\<forall>r \<in> set new. \<exists>(cid, pos) \<in> set m. \<exists>po \<in> set pos. review_of cid po r)"
proof (induction m arbitrary: s)
  case Nil
  then show ?case by simp
next
  case (Cons a m)
  obtain cid pos where a: "a = (cid, pos)" by (cases a)
  show ?case
  proof (cases "200 \<le> review_count s")
    case True
    with Cons.prems a show ?thesis by simp
  next
    case False
    from Cons.prems [unfolded a] False obtain n g rp g' s1 where
      sm: "sample pos (min n (int (length pos))) g = Inr (rp, g')" and
      l: "reviews_loop cid rp (s\<lparr>rng := g'\<rparr>) = Inr s1" and
      rec: "customers_loop m s1 = Inr s'"
      by (rule customers_loop_step)
    from reviews_loop_new [OF l] obtain new1 where
      n1: "reviews s1 = reviews s @ new1" "\<forall>r \<in> set new1. \<exists>po \<in> set rp. review_of cid po r"
      by auto
    from Cons.IH [OF rec] obtain new2 where
      n2: "reviews s' = reviews s1 @ new2"
          "\<forall>r \<in> set new2. \<exists>(cid, pos) \<in> set m. \<exists>po \<in> set pos. review_of cid po r"
      by auto
    from n1(2) sample_subset [OF sm] have
      "\<forall>r \<in> set new1. \<exists>po \<in> set pos. review_of cid po r" by blast
    with n1(1) n2 a show ?thesis
      by (intro exI [of _ "new1 @ new2"]) fastforce
  qed
qed

lemma reviews_provenance:
  assumes "generate_data fs g = (fs', None)"
    and "orders_csv fs = Some order_rows"
  shows "\<exists>items revs. order_items_csv fs' = Some items \<and> reviews_csv fs' = Some revs
     \<and> (\<forall>r \<in> set revs. \<exists>item \<in> set items. \<exists>ord \<in> set order_rows. \<exists>d n.
           oi_order_id item = order_id ord \<and> oi_product_id item = rv_product_id r
           \<and> customer_id ord = rv_customer_id r
           \<and> order_status ord \<in> {''Delivered'', ''Shipped''}
           \<and> strptime (order_date ord) = Inr d \<and> 1 \<le> n \<and> n \<le> 30
           \<and> 1 \<le> d + n \<and> d + n \<le> 3652059
           \<and> rv_review_date r = strftime (d + n))"
proof -
  from assms(1) obtain customers products order_rows' orders s1 rows s2 where
    "customers_csv fs = Some customers" "products_csv fs = Some products" and
    o: "orders_csv fs = Some order_rows'" and
    ol': "orders_loop products (read_orders order_rows') (initial_state g) = Inr (orders, s1)"
    and "write_orders orders = (rows, None)"
    and cl: "customers_loop (build_customer_product_map orders (order_items s1)) s1 = Inr s2"
    and fs': "fs' = fs\<lparr>order_items_csv := Some (order_items s1), orders_csv := Some rows,
               reviews_csv := Some (reviews s2)\<rparr>"
    by (rule generate_data_success)
  from o assms(2) ol' have
    ol: "orders_loop products (read_orders order_rows) (initial_state g) = Inr (orders, s1)"
    by simp
  from fs' have
    f: "order_items_csv fs' = Some (order_items s1)" "reviews_csv fs' = Some (reviews s2)"
    by simp_all
  from orders_loop_frame [OF ol] have "reviews s1 = []" by (simp add: initial_state_def)
  with customers_loop_new [OF cl] have
    new: "\<forall>r \<in> set (reviews s2).
       \<exists>(cid, pos) \<in> set (build_customer_product_map orders (order_items s1)).
       \<exists>po \<in> set pos. review_of cid po r" by auto
  from orders_loop_rows [OF ol] have rows: "map row orders = order_rows"
    by (simp add: read_orders_rows)
  have "\<exists>item \<in> set (order_items s1). \<exists>ord \<in> set order_rows. \<exists>d n.
           oi_order_id item = order_id ord \<and> oi_product_id item = rv_product_id r
           \<and> customer_id ord = rv_customer_id r
           \<and> order_status ord \<in> {''Delivered'', ''Shipped''}
           \<and> strptime (order_date ord) = Inr d \<and> 1 \<le> n \<and> n \<le> 30
           \<and> 1 \<le> d + n \<and> d + n \<le> 3652059
           \<and> rv_review_date r = strftime (d + n)" if "r \<in> set (reviews s2)" for r
  proof -
    from new that obtain cid pos po where
      e: "(cid, pos) \<in> set (build_customer_product_map orders (order_items s1))"
         "po \<in> set pos" and rv: "review_of cid po r" by blast
    from customer_product_map_entries [OF e] obtain item ord where
      i: "item \<in> set (order_items s1)" "ord \<in> set orders"
         "order_id (row ord) = oi_order_id item"
         "order_status (row ord) \<in> {''Delivered'', ''Shipped''}"
         "customer_id (row ord) = cid" "po_product_id po = oi_product_id item"
         "po_order_date po = order_date (row ord)"
      unfolding purchase_of_def by blast
    from i(2) rows have "row ord \<in> set order_rows" by force
    with i rv show ?thesis unfolding review_of_def by (intro bexI [of _ item] bexI [of _ "row ord"]) auto
  qed
  with f show ?thesis by simp
qed



section \<open>The claims\<close>

text \<open>
  Claim C6 (identifier monotonicity and uniqueness). In a run that completes, the order
  item identifiers written are, in the order written, exactly 5001, 5002, ... without gap
  or repetition, and the review identifiers are exactly 6001, 6002, ... likewise.
\<close>

theorem identifiers_contiguous:
  assumes "generate_data fs g = (fs', None)"
  shows "\<exists>items revs.
           order_items_csv fs' = Some items \<and> reviews_csv fs' = Some revs
           \<and> map oi_order_item_id items = [5001 .. 5000 + int (length items)]
           \<and> distinct (map oi_order_item_id items)
           \<and> map rv_review_id revs = [6001 .. 6000 + int (length revs)]
           \<and> distinct (map rv_review_id revs)"
proof -
  from assms obtain products order_rows orders s1 rows s2 where
    ol: "orders_loop products (read_orders order_rows) (initial_state g) = Inr (orders, s1)"
    and cl: "customers_loop (build_customer_product_map orders (order_items s1)) s1 = Inr s2"
    and fs': "fs' = fs\<lparr>order_items_csv := Some (order_items s1), orders_csv := Some rows,
                       reviews_csv := Some (reviews s2)\<rparr>"
    by (rule generate_data_success)
  have i: "map oi_order_item_id (order_items s1) = [5001 .. order_item_id s1 - 1]"
    and i': "5001 \<le> order_item_id s1"
    using orders_loop_ids [OF ol] by (simp_all add: initial_state_def)
  have "reviews_inv s2"
    using customers_loop_inv [OF cl reviews_inv_after_orders [OF ol]] .
  then have r: "map rv_review_id (reviews s2) = [6001 .. review_id s2 - 1]"
    and r': "6001 \<le> review_id s2"
    by (simp_all add: reviews_inv_def)
  have "order_item_id s1 - 1 = 5000 + int (length (order_items s1))"
    using upto_length_eq [OF i i'] by simp
  with i have 1: "map oi_order_item_id (order_items s1)
      = [5001 .. 5000 + int (length (order_items s1))]" by simp
  have "review_id s2 - 1 = 6000 + int (length (reviews s2))"
    using upto_length_eq [OF r r'] by simp
  with r have 2: "map rv_review_id (reviews s2) = [6001 .. 6000 + int (length (reviews s2))]"
    by simp
  from 1 2 fs' show ?thesis by (simp del: upto.simps)
qed

theorem identifiers_contiguous_witness:
  "generate_data duplicate_files duplicate_draws = (duplicate_result, None)
   \<and> (\<exists>items revs.
           order_items_csv duplicate_result = Some items
           \<and> reviews_csv duplicate_result = Some revs
           \<and> length items = 5 \<and> length revs = 2
           \<and> map oi_order_item_id items = [5001 .. 5000 + int (length items)]
           \<and> distinct (map oi_order_item_id items)
           \<and> map rv_review_id revs = [6001 .. 6000 + int (length revs)]
           \<and> distinct (map rv_review_id revs))"
proof -
  have l: "map_option length (order_items_csv duplicate_result) = Some 5"
    "map_option length (reviews_csv duplicate_result) = Some 2"
    by (simp_all add: duplicate_result_def)
  from identifiers_contiguous [OF duplicate_run] obtain items revs where
    f: "order_items_csv duplicate_result = Some items" "reviews_csv duplicate_result = Some revs"
    and c: "map oi_order_item_id items = [5001 .. 5000 + int (length items)]"
      "distinct (map oi_order_item_id items)"
      "map rv_review_id revs = [6001 .. 6000 + int (length revs)]"
      "distinct (map rv_review_id revs)"
    by blast
  from l f have "length items = 5" "length revs = 2" by simp_all
  with f c duplicate_run show ?thesis by blast
qed

text \<open>
  Claim C3 (cap enforcement). A run that completes writes at most 200 reviews, whatever
  the input and the draws. Once 200 reviews are counted, both loops stop at once: the
  loop over the customers and the loop over a customer's sampled purchases return the
  state as it is, drawing no further random number, whatever purchases remain.
\<close>

theorem review_cap:
  "(generate_data fs g = (fs', None) \<longrightarrow>
      (\<exists>revs. reviews_csv fs' = Some revs \<and> length revs \<le> 200))
   \<and> (200 \<le> review_count s \<longrightarrow>
         customers_loop m s = Inr s \<and> reviews_loop cid pos s = Inr s)"
proof (intro conjI impI)
  assume run: "generate_data fs g = (fs', None)"
  from run obtain products order_rows orders s1 rows s2 where
    ol: "orders_loop products (read_orders order_rows) (initial_state g) = Inr (orders, s1)"
    and cl: "customers_loop (build_customer_product_map orders (order_items s1)) s1 = Inr s2"
    and fs': "fs' = fs\<lparr>order_items_csv := Some (order_items s1), orders_csv := Some rows,
                       reviews_csv := Some (reviews s2)\<rparr>"
    by (rule generate_data_success)
  have "reviews_inv s2"
    using customers_loop_inv [OF cl reviews_inv_after_orders [OF ol]] .
  then have "length (reviews s2) \<le> 200" by (simp add: reviews_inv_def)
  with fs' show "\<exists>revs. reviews_csv fs' = Some revs \<and> length revs \<le> 200" by simp
next
  assume "200 \<le> review_count s"
  then show "customers_loop m s = Inr s" by (cases m) auto
next
  assume "200 \<le> review_count s"
  then show "reviews_loop cid pos s = Inr s" by (cases pos) auto
qed

theorem review_cap_witness:
  "generate_data example_files example_draws = (example_result, None)
   \<and> (\<exists>revs. reviews_csv example_result = Some revs \<and> length revs \<le> 200)
   \<and> 200 \<le> review_count capped_state
   \<and> customers_loop [(''7'', [\<lparr>po_product_id = ''1'', po_order_date = ''2025-01-01''\<rparr>])]
        capped_state = Inr capped_state
   \<and> reviews_loop ''7'' [\<lparr>po_product_id = ''1'', po_order_date = ''2025-01-01''\<rparr>]
        capped_state = Inr capped_state"
proof -
  have c: "200 \<le> review_count capped_state"
    by (simp add: capped_state_def initial_state_def)
  from review_cap [of example_files example_draws example_result capped_state
        "[(''7'', [\<lparr>po_product_id = ''1'', po_order_date = ''2025-01-01''\<rparr>])]" "''7''"
        "[\<lparr>po_product_id = ''1'', po_order_date = ''2025-01-01''\<rparr>]"]
    example_run c
  show ?thesis by blast
qed

text \<open>
  Claim C7 (review sampling is clamped). Whatever number of reviews was computed for a
  customer, the sample is requested with the minimum of that number and the number of
  the customer's purchases: the call to \<open>random.sample\<close> succeeds, returns exactly that
  many purchases, and the loop goes on with them.
\<close>

theorem review_sampling_clamped:
  assumes "num_reviews_of product_orders (rng s) = Inr (num_reviews, g)"
  shows "\<exists>reviewed_products g'.
           sample product_orders (min num_reviews (int (length product_orders))) g
             = Inr (reviewed_products, g')
           \<and> int (length reviewed_products) = min num_reviews (int (length product_orders))
           \<and> (review_count s < 200 \<longrightarrow>
                 customers_loop ((cid, product_orders) # m) s =
                   (case reviews_loop cid reviewed_products (s\<lparr>rng := g'\<rparr>) of
                      Inl e \<Rightarrow> Inl e
                    | Inr s' \<Rightarrow> customers_loop m s'))"
proof -
  from num_reviews_of_pos [OF assms] have "0 \<le> min num_reviews (int (length product_orders))"
    by simp
  then obtain rp g' where
    sm: "sample product_orders (min num_reviews (int (length product_orders))) g = Inr (rp, g')"
    by (cases "sample_from product_orders (nat (min num_reviews (int (length product_orders)))) g")
       (simp add: sample_def)
  from sample_length [OF sm] sm assms show ?thesis by auto
qed

theorem review_sampling_clamped_witness:
  "num_reviews_of [\<lparr>po_product_id = ''1'', po_order_date = ''2025-01-01''\<rparr>]
      (rng (initial_state [0, 0, 0, 0, 4])) = Inr (1, [0, 0, 0, 4])
   \<and> review_count (initial_state [0, 0, 0, 0, 4]) < 200
   \<and> (\<exists>reviewed_products g'.
         sample [\<lparr>po_product_id = ''1'', po_order_date = ''2025-01-01''\<rparr>]
           (min 1 (int (length [\<lparr>po_product_id = ''1'', po_order_date = ''2025-01-01''\<rparr>])))
           [0, 0, 0, 4] = Inr (reviewed_products, g')
         \<and> int (length reviewed_products)
             = min 1 (int (length [\<lparr>po_product_id = ''1'', po_order_date = ''2025-01-01''\<rparr>]))
         \<and> customers_loop [(''7'', [\<lparr>po_product_id = ''1'', po_order_date = ''2025-01-01''\<rparr>])]
              (initial_state [0, 0, 0, 0, 4]) =
             (case reviews_loop ''7'' reviewed_products
                     ((initial_state [0, 0, 0, 0, 4])\<lparr>rng := g'\<rparr>) of
                Inl e \<Rightarrow> Inl e
              | Inr s' \<Rightarrow> customers_loop [] s'))"
proof -
  have n: "num_reviews_of [\<lparr>po_product_id = ''1'', po_order_date = ''2025-01-01''\<rparr>]
      (rng (initial_state [0, 0, 0, 0, 4])) = Inr (1, [0, 0, 0, 4])"
    by code_simp
  have c: "review_count (initial_state [0, 0, 0, 0, 4]) < 200"
    by (simp add: initial_state_def)
  from review_sampling_clamped [OF n, of "''7''" "[]"] n c show ?thesis by blast
qed

text \<open>
  Claim C4 (item count bounds). In a run that completes, the order items written are
  the concatenation of one block per order, in the order of the orders. The block of a
  Cancelled order has between 1 and 3 items, the block of any other order between 1 and
  5; every item of a block carries its order's identifier; the products of a block are
  taken at distinct positions of the catalogue, hence pairwise distinct when the
  catalogue's product identifiers are. When the order identifiers are unique, the block
  of an order is exactly the items that carry its identifier.
\<close>

theorem item_count_bounds:
  assumes "generate_data fs g = (fs', None)"
    and "orders_csv fs = Some order_rows" and "products_csv fs = Some products"
  shows "\<exists>items blocks.
           order_items_csv fs' = Some items \<and> items = concat blocks
           \<and> list_all2 (\<lambda>r block.
                 1 \<le> length block
                 \<and> length block \<le> (if order_status r = ''Cancelled'' then 3 else 5)
                 \<and> (\<forall>i \<in> set block. oi_order_id i = order_id r)
                 \<and> mset (map oi_product_id block) \<subseteq># mset (map product_id products)
                 \<and> (distinct (map product_id products) \<longrightarrow> distinct (map oi_product_id block)))
               order_rows blocks
           \<and> (distinct (map order_id order_rows) \<longrightarrow>
                (\<forall>k < length order_rows.
                   filter (\<lambda>i. oi_order_id i = order_id (order_rows ! k)) items = blocks ! k))"
proof -
  from assms have "\<exists>orders s1.
      orders_loop products (read_orders order_rows) (initial_state g) = Inr (orders, s1)
      \<and> order_items_csv fs' = Some (order_items s1)"
    unfolding generate_data_def
    by (auto simp: Let_def split: option.splits sum.splits prod.splits)
  then obtain orders s1 where
    ol: "orders_loop products (read_orders order_rows) (initial_state g) = Inr (orders, s1)"
    and fs': "order_items_csv fs' = Some (order_items s1)"
    by blast
  from orders_loop_blocks [OF ol] obtain blocks where
    items: "order_items s1 = concat blocks" and
    la: "list_all2 (\<lambda>ord block.
             1 \<le> length block \<and> length block \<le> max_items (row ord)
             \<and> (\<forall>i \<in> set block. oi_order_id i = order_id (row ord))
             \<and> mset (map oi_product_id block) \<subseteq># mset (map product_id products))
           (read_orders order_rows) blocks"
    by (auto simp: initial_state_def)
  from la have la': "list_all2 (\<lambda>r block.
             1 \<le> length block \<and> length block \<le> max_items r
             \<and> (\<forall>i \<in> set block. oi_order_id i = order_id r)
             \<and> mset (map oi_product_id block) \<subseteq># mset (map product_id products))
           order_rows blocks"
    by (simp add: read_orders_def list_all2_map1)
  have 1: "list_all2 (\<lambda>r block.
                 1 \<le> length block
                 \<and> length block \<le> (if order_status r = ''Cancelled'' then 3 else 5)
                 \<and> (\<forall>i \<in> set block. oi_order_id i = order_id r)
                 \<and> mset (map oi_product_id block) \<subseteq># mset (map product_id products)
                 \<and> (distinct (map product_id products) \<longrightarrow> distinct (map oi_product_id block)))
               order_rows blocks"
    by (rule list_all2_mono [OF la'])
       (auto simp: max_items_def intro: distinct_map_of_sub_image_mset)
  have keys: "list_all2 (\<lambda>r b. \<forall>i \<in> set b. oi_order_id i = order_id r) order_rows blocks"
    by (rule list_all2_mono [OF la']) simp
  have 2: "distinct (map order_id order_rows) \<longrightarrow>
                (\<forall>k < length order_rows.
                   filter (\<lambda>i. oi_order_id i = order_id (order_rows ! k)) (concat blocks)
                     = blocks ! k)"
    using filter_concat_block [OF keys] by blast
  show ?thesis
    by (rule exI [of _ "concat blocks"], rule exI [of _ blocks]) (use fs' items 1 2 in simp)
qed

theorem item_count_bounds_witness:
  "generate_data duplicate_files duplicate_draws = (duplicate_result, None)
   \<and> length (the (orders_csv duplicate_files)) = 5
   \<and> distinct (map order_id (the (orders_csv duplicate_files)))
   \<and> distinct (map product_id (the (products_csv duplicate_files)))
   \<and> (\<exists>items blocks.
           order_items_csv duplicate_result = Some items \<and> items = concat blocks
           \<and> list_all2 (\<lambda>r block.
                 1 \<le> length block
                 \<and> length block \<le> (if order_status r = ''Cancelled'' then 3 else 5)
                 \<and> (\<forall>i \<in> set block. oi_order_id i = order_id r)
                 \<and> mset (map oi_product_id block)
                     \<subseteq># mset (map product_id (the (products_csv duplicate_files)))
                 \<and> distinct (map oi_product_id block))
               (the (orders_csv duplicate_files)) blocks
           \<and> (\<forall>k < length (the (orders_csv duplicate_files)).
                   filter (\<lambda>i. oi_order_id i = order_id (the (orders_csv duplicate_files) ! k))
                     items = blocks ! k))"
proof -
  have o: "orders_csv duplicate_files = Some (the (orders_csv duplicate_files))"
    and p: "products_csv duplicate_files = Some (the (products_csv duplicate_files))"
    and d: "length (the (orders_csv duplicate_files)) = 5"
           "distinct (map order_id (the (orders_csv duplicate_files)))"
           "distinct (map product_id (the (products_csv duplicate_files)))"
    by (simp_all add: duplicate_files_def example_files_def dup_order_def)
  from item_count_bounds [OF duplicate_run o p] d duplicate_run show ?thesis by simp
qed

text \<open>
  Claim C9 (frame effect). A run never changes the customers or the products file,
  however it ends. Whenever it writes the orders file, it writes one row per order read,
  in the same order, and each row written equals the row read in every field but
  \<open>total_amount\<close>; a run that completes has written the orders file.
\<close>

theorem frame_effect:
  assumes "generate_data fs g = (fs', err)"
  shows "customers_csv fs' = customers_csv fs \<and> products_csv fs' = products_csv fs
     \<and> (orders_csv fs' = orders_csv fs \<and> err \<noteq> None
        \<or> (\<exists>rows_in rows_out.
              orders_csv fs = Some rows_in \<and> orders_csv fs' = Some rows_out
              \<and> list_all2 (\<lambda>r w.
                    order_id w = order_id r \<and> customer_id w = customer_id r
                    \<and> order_date w = order_date r \<and> order_status w = order_status r
                    \<and> shipping_address w = shipping_address r
                    \<and> payment_method w = payment_method r)
                  rows_in rows_out))"
proof -
  from generate_data_cases [OF assms]
  consider "fs' = fs" "err \<noteq> None"
    | order_rows products orders s1 where
        "orders_csv fs = Some order_rows"
        "orders_loop products (read_orders order_rows) (initial_state g) = Inr (orders, s1)"
        "customers_csv fs' = customers_csv fs" "products_csv fs' = products_csv fs"
        "orders_csv fs' = Some (fst (write_orders orders))"
    by auto
  then show ?thesis
  proof cases
    case 1
    then show ?thesis by simp
  next
    case 2
    from orders_loop_rows [OF 2(2)] have
      r: "map row orders = order_rows" and c: "\<forall>x \<in> set orders. calculated_total x \<noteq> None"
      by (simp_all add: read_orders_rows)
    from write_orders_frame [OF c] r have
      "list_all2 (\<lambda>r w. w = r\<lparr>total_amount := total_amount w\<rparr>)
         order_rows (fst (write_orders orders))" by simp
    then have "list_all2 (\<lambda>r w.
                    order_id w = order_id r \<and> customer_id w = customer_id r
                    \<and> order_date w = order_date r \<and> order_status w = order_status r
                    \<and> shipping_address w = shipping_address r
                    \<and> payment_method w = payment_method r)
                  order_rows (fst (write_orders orders))"
      by (rule list_all2_mono) (metis order_row.select_convs order_row.surjective order_row.update_convs(5))
    with 2 show ?thesis by simp
  qed
qed

theorem frame_effect_witness:
  "generate_data example_files example_draws = (example_result, None)
   \<and> customers_csv example_result = customers_csv example_files
   \<and> products_csv example_result = products_csv example_files
   \<and> (\<exists>rows_in rows_out.
          orders_csv example_files = Some rows_in \<and> orders_csv example_result = Some rows_out
          \<and> list_all2 (\<lambda>r w.
                order_id w = order_id r \<and> customer_id w = customer_id r
                \<and> order_date w = order_date r \<and> order_status w = order_status r
                \<and> shipping_address w = shipping_address r
                \<and> payment_method w = payment_method r)
              rows_in rows_out)"
  using frame_effect [OF example_run] example_run by simp

text \<open>
  Claim C2 (review eligibility). In a run that completes, every review written has the
  customer and the product of some order item written in the same run whose order (the
  order with the item's order identifier) belongs to that customer and has status
  Delivered or Shipped.
\<close>

theorem review_eligibility:
  assumes "generate_data fs g = (fs', None)" and "orders_csv fs = Some order_rows"
  shows "\<exists>items revs.
           order_items_csv fs' = Some items \<and> reviews_csv fs' = Some revs
           \<and> (\<forall>r \<in> set revs. \<exists>item \<in> set items. \<exists>ord \<in> set order_rows.
                 oi_order_id item = order_id ord
                 \<and> oi_product_id item = rv_product_id r
                 \<and> customer_id ord = rv_customer_id r
                 \<and> order_status ord \<in> {''Shipped'', ''Delivered''})"
proof -
  from reviews_provenance [OF assms] obtain items revs where
    f: "order_items_csv fs' = Some items" "reviews_csv fs' = Some revs" and
    p: "\<forall>r \<in> set revs. \<exists>item \<in> set items. \<exists>ord \<in> set order_rows. \<exists>d n.
           oi_order_id item = order_id ord \<and> oi_product_id item = rv_product_id r
           \<and> customer_id ord = rv_customer_id r
           \<and> order_status ord \<in> {''Delivered'', ''Shipped''}
           \<and> strptime (order_date ord) = Inr d \<and> 1 \<le> n \<and> n \<le> 30
           \<and> 1 \<le> d + n \<and> d + n \<le> 3652059
           \<and> rv_review_date r = strftime (d + n)"
    by blast
  have "\<exists>item \<in> set items. \<exists>ord \<in> set order_rows.
                 oi_order_id item = order_id ord
                 \<and> oi_product_id item = rv_product_id r
                 \<and> customer_id ord = rv_customer_id r
                 \<and> order_status ord \<in> {''Shipped'', ''Delivered''}" if "r \<in> set revs" for r
  proof -
    from p that obtain item ord where
      "item \<in> set items" "ord \<in> set order_rows"
      "oi_order_id item = order_id ord" "oi_product_id item = rv_product_id r"
      "customer_id ord = rv_customer_id r"
      "order_status ord \<in> {''Delivered'', ''Shipped''}"
      by blast
    then show ?thesis
      by (intro bexI [of _ item] bexI [of _ ord]) auto
  qed
  with f show ?thesis by simp
qed

theorem review_eligibility_witness:
  "generate_data example_files example_draws = (example_result, None)
   \<and> (\<exists>items revs.
           order_items_csv example_result = Some items \<and> reviews_csv example_result = Some revs
           \<and> revs \<noteq> []
           \<and> (\<forall>r \<in> set revs. \<exists>item \<in> set items.
                 \<exists>ord \<in> set (the (orders_csv example_files)).
                 oi_order_id item = order_id ord
                 \<and> oi_product_id item = rv_product_id r
                 \<and> customer_id ord = rv_customer_id r
                 \<and> order_status ord \<in> {''Shipped'', ''Delivered''}))"
proof -
  have o: "orders_csv example_files = Some (the (orders_csv example_files))"
    by (simp add: example_files_def)
  have "reviews_csv example_result \<noteq> Some []" by (simp add: example_result_def)
  with review_eligibility [OF example_run o] example_run show ?thesis by auto
qed



text \<open>
  Claim C10 (duplicate reviews are possible). One customer with five delivered orders on
  different dates, each containing the same product: with suitable draws the customer
  reviews two of the five purchases, and the two reviews written have different
  identifiers and dates but the same customer and the same product.
\<close>

theorem duplicate_reviews_possible:
  "\<exists>revs r1 r2.
     generate_data duplicate_files duplicate_draws = (duplicate_result, None)
     \<and> reviews_csv duplicate_result = Some revs
     \<and> r1 \<in> set revs \<and> r2 \<in> set revs
     \<and> rv_review_id r1 \<noteq> rv_review_id r2
     \<and> rv_review_date r1 \<noteq> rv_review_date r2
     \<and> rv_customer_id r1 = rv_customer_id r2
     \<and> rv_product_id r1 = rv_product_id r2"
  by (rule exI [of _ "[dup_review 6001 ''2025-01-02'', dup_review 6002 ''2025-02-02'']"],
      rule exI [of _ "dup_review 6001 ''2025-01-02''"],
      rule exI [of _ "dup_review 6002 ''2025-02-02''"])
     (simp add: duplicate_run duplicate_result_def dup_review_def)




end
